theory Spec2Isabelle
  imports
    Complex_Main
    "HOL-Library.FSet"
    "HOL-Library.Char_ord"
    "HOL-Library.List_Lexorder"
    "HOL-Library.Sublist"
begin

section \<open>Strings, names and the files of the crawl-state engine\<close>

text \<open>
  Names (subreddits, commenters) are Python \<open>str\<close> values. A character is a code point
  below 256 (ASCII and Latin-1; Reddit names consist of letters, digits, \<open>_\<close> and \<open>-\<close>).
  On these, \<open>str.lower\<close> adds 32 to \<open>A\<close>..\<open>Z\<close> and to the capitals \<open>0xC0\<close>..\<open>0xDE\<close>
  (\<open>0xD7\<close>, the multiplication sign, is no letter) and keeps every other character;
  \<open>sorted\<close> on strings is the lexicographic order on code points, which is the order
  of \<open>char list\<close> used here. Python sets are finite, hence \<open>fset\<close>.
\<close>

definition lower_char :: "char \<Rightarrow> char" where
  "lower_char c =
     (if (CHR ''A'' \<le> c \<and> c \<le> CHR ''Z'') \<or>
         (CHR 0xC0 \<le> c \<and> c \<le> CHR 0xDE \<and> c \<noteq> CHR 0xD7)
      then char_of (of_char c + (32::nat)) else c)"

definition lower :: "string \<Rightarrow> string" where
  "lower s = map lower_char s"

text \<open>\<open>str.strip()\<close>: the characters below 256 for which \<open>str.isspace\<close> holds.\<close>

definition is_space :: "char \<Rightarrow> bool" where
  "is_space c = (c \<in> set [CHR 0x09, CHR 0x0A, CHR 0x0B, CHR 0x0C, CHR 0x0D,
                            CHR 0x1C, CHR 0x1D, CHR 0x1E, CHR 0x1F, CHR 0x20,
                            CHR 0x85, CHR 0xA0])"

definition strip :: "string \<Rightarrow> string" where
  "strip s = rev (dropWhile is_space (rev (dropWhile is_space s)))"

text \<open>
  A text file opened with \<open>open("r")\<close>: \<open>\r\n\<close> and a lone \<open>\r\<close> are read as \<open>\n\<close>
  (universal newlines), and \<open>for line in f\<close> yields the lines, each with its closing
  \<open>\n\<close>; the last line may lack one. \<open>file_lines\<close> carries the line read so far.
  Writing \<open>\n\<close> to a file opened with \<open>open("w")\<close> and reading it back gives \<open>\n\<close>.
  The file is encoded in UTF-8, the default, so every character is read back as written.
\<close>

fun universal_newlines :: "string \<Rightarrow> string" where
  "universal_newlines [] = []"
| "universal_newlines [c] = [if c = CHR 0x0D then CHR 0x0A else c]"
| "universal_newlines (c # c' # cs) =
     (if c = CHR 0x0D \<and> c' = CHR 0x0A then CHR 0x0A # universal_newlines cs
      else if c = CHR 0x0D then CHR 0x0A # universal_newlines (c' # cs)
      else c # universal_newlines (c' # cs))"

fun file_lines :: "string \<Rightarrow> string \<Rightarrow> string list" where
  "file_lines cur [] = (if cur = [] then [] else [cur])"
| "file_lines cur (c # cs) =
     (if c = CHR 0x0A then (cur @ [c]) # file_lines [] cs else file_lines (cur @ [c]) cs)"

text \<open>
  \<open>list(s)\<close> of a Python set enumerates its members in an unspecified order; a reload
  turns the list back into a set, so any enumeration serves. The sorted one is used.
\<close>

definition list_of :: "string fset \<Rightarrow> string list" where
  "list_of A = sorted_list_of_fset A"

datatype error = OSError | ValueError | RateLimitOrBlocked | GluetunControllerError | OtherError

text \<open>The files the engine reads and writes, by role.\<close>

datatype path =
    DedupSubredditsFile
  | DedupUsersFile
  | ExporterStateFile
  | PipelineStateFile
  | CheckpointFile
  | ChunkCsv nat
  | ChunkJson nat

text \<open>One discovered subreddit as \<open>SubredditInfo.to_dict\<close> stores it.\<close>

record subreddit_info =
  subreddit_name :: string
  subscribers :: int
  over18 :: bool

text \<open>
  What a file holds. The users file of the dedup store is plain text, kept as the
  string written; the JSON and CSV files are kept as the values they encode.
  \<open>Corrupt\<close> is a file that cannot be read or is not valid JSON.
  The checkpoint document carries each key as an option, since
  \<open>ScraperState.from_dict\<close> reads every key with a default.
\<close>

datatype content =
    SubredditsDoc "string list" "string list"
  | UsersText string
  | ExporterDoc nat nat nat "string list"
  | PipelineDoc "string list"
  | CheckpointDoc "subreddit_info list option" "string list option" "string list option"
      "string list option" "string option"
  | CsvRows "string list list"
  | ChunkDoc "string list" nat
  | Corrupt

text \<open>
  The disk: file contents, and the set of paths on which opening for writing raises
  \<open>OSError\<close> (read-only or full disk, missing permission).
\<close>

record fs =
  files :: "path \<Rightarrow> content option"
  unwritable :: "path set"

definition write_file :: "fs \<Rightarrow> path \<Rightarrow> content \<Rightarrow> error + fs" where
  "write_file d p c =
     (if p \<in> unwritable d then Inl OSError else Inr (d\<lparr>files := (files d)(p \<mapsto> c)\<rparr>))"

definition fs_empty :: fs where
  "fs_empty = \<lparr>files = (\<lambda>p. None), unwritable = {}\<rparr>"

section \<open>Dedup Store: \<open>DeduplicationManager\<close> (pipeline.py)\<close>

definition DEDUP_PERSIST_INTERVAL :: nat where
  "DEDUP_PERSIST_INTERVAL = 100"

record dedup =
  discovered_subreddits :: "string fset"
  processed_subreddits :: "string fset"
  queued_subreddits :: "string fset"
  seen_users :: "string fset"
  ops_since_save :: nat
  user_ops_since_save :: nat

definition dedup_init :: dedup where
  "dedup_init = \<lparr>discovered_subreddits = {||}, processed_subreddits = {||},
     queued_subreddits = {||}, seen_users = {||}, ops_since_save = 0,
     user_ops_since_save = 0\<rparr>"

text \<open>
  \<open>save_state\<close>: each of the two writes sits in its own \<open>try\<close>; a failed write is
  printed and swallowed, and its counter is reset only after a successful write. The
  users file is written as text, \<open>f.write(f"{user}\n")\<close> for each user of
  \<open>sorted(self.seen_users)\<close>: that text is \<open>write_users\<close>.
\<close>

definition save_subreddits :: "bool \<Rightarrow> dedup \<Rightarrow> fs \<Rightarrow> dedup \<times> fs" where
  "save_subreddits force d disk =
     (if force \<or> ops_since_save d \<ge> DEDUP_PERSIST_INTERVAL then
        (case write_file disk DedupSubredditsFile
                (SubredditsDoc (list_of (discovered_subreddits d))
                               (list_of (processed_subreddits d))) of
           Inl e \<Rightarrow> (d, disk)
         | Inr disk' \<Rightarrow> (d\<lparr>ops_since_save := 0\<rparr>, disk'))
      else (d, disk))"

definition write_users :: "string list \<Rightarrow> string" where
  "write_users users = concat (map (\<lambda>user. user @ [CHR 0x0A]) users)"

definition save_users :: "bool \<Rightarrow> dedup \<Rightarrow> fs \<Rightarrow> dedup \<times> fs" where
  "save_users force d disk =
     (if force \<or> user_ops_since_save d \<ge> DEDUP_PERSIST_INTERVAL * 10 then
        (case write_file disk DedupUsersFile
                (UsersText (write_users (sorted_list_of_fset (seen_users d)))) of
           Inl e \<Rightarrow> (d, disk)
         | Inr disk' \<Rightarrow> (d\<lparr>user_ops_since_save := 0\<rparr>, disk'))
      else (d, disk))"

definition save_state :: "bool \<Rightarrow> dedup \<Rightarrow> fs \<Rightarrow> dedup \<times> fs" where
  "save_state force d disk =
     (case save_subreddits force d disk of (d1, disk1) \<Rightarrow> save_users force d1 disk1)"

text \<open>
  \<open>_load_state\<close>: a missing file leaves the defaults; a failing read is caught. The
  users file is read line by line, \<open>line.strip() for line in f if line.strip()\<close>: each
  line stripped, empty lines dropped. That list is \<open>read_users\<close>.
\<close>

definition read_users :: "string \<Rightarrow> string list" where
  "read_users t = filter (\<lambda>l. l \<noteq> []) (map strip (file_lines [] (universal_newlines t)))"

definition load_state :: "fs \<Rightarrow> dedup" where
  "load_state disk =
     (let d1 = (case files disk DedupSubredditsFile of
                  Some (SubredditsDoc ds ps) \<Rightarrow>
                    dedup_init\<lparr>discovered_subreddits := fset_of_list ds,
                                 processed_subreddits := fset_of_list ps\<rparr>
                | _ \<Rightarrow> dedup_init)
      in (case files disk DedupUsersFile of
            Some (UsersText t) \<Rightarrow> d1\<lparr>seen_users := fset_of_list (read_users t)\<rparr>
          | _ \<Rightarrow> d1))"

definition is_subreddit_seen :: "dedup \<Rightarrow> string \<Rightarrow> bool" where
  "is_subreddit_seen d name = (lower name |\<in>| discovered_subreddits d)"

definition is_subreddit_processed :: "dedup \<Rightarrow> string \<Rightarrow> bool" where
  "is_subreddit_processed d name = (lower name |\<in>| processed_subreddits d)"

definition is_subreddit_queued :: "dedup \<Rightarrow> string \<Rightarrow> bool" where
  "is_subreddit_queued d name = (lower name |\<in>| queued_subreddits d)"

definition should_process_subreddit :: "dedup \<Rightarrow> string \<Rightarrow> bool" where
  "should_process_subreddit d name =
     (lower name |\<notin>| discovered_subreddits d \<and>
      lower name |\<notin>| processed_subreddits d \<and>
      lower name |\<notin>| queued_subreddits d)"

definition mark_subreddit_discovered :: "string \<Rightarrow> dedup \<Rightarrow> fs \<Rightarrow> bool \<times> dedup \<times> fs" where
  "mark_subreddit_discovered name d disk =
     (if lower name |\<in>| discovered_subreddits d then (False, d, disk)
      else
        (let d1 = d\<lparr>discovered_subreddits := finsert (lower name) (discovered_subreddits d),
                     ops_since_save := ops_since_save d + 1\<rparr>
         in if ops_since_save d1 \<ge> DEDUP_PERSIST_INTERVAL
            then (True, save_state False d1 disk) else (True, d1, disk)))"

definition mark_subreddit_queued :: "string \<Rightarrow> dedup \<Rightarrow> dedup" where
  "mark_subreddit_queued name d =
     d\<lparr>queued_subreddits := finsert (lower name) (queued_subreddits d)\<rparr>"

definition mark_subreddit_processed :: "string \<Rightarrow> dedup \<Rightarrow> fs \<Rightarrow> dedup \<times> fs" where
  "mark_subreddit_processed name d disk =
     (let d1 = d\<lparr>processed_subreddits := finsert (lower name) (processed_subreddits d),
                  queued_subreddits := queued_subreddits d |-| {|lower name|},
                  ops_since_save := ops_since_save d + 1\<rparr>
      in if ops_since_save d1 \<ge> DEDUP_PERSIST_INTERVAL
         then save_state False d1 disk else (d1, disk))"

definition clear_queue :: "dedup \<Rightarrow> dedup" where
  "clear_queue d = d\<lparr>queued_subreddits := {||}\<rparr>"

definition set_queue :: "string list \<Rightarrow> dedup \<Rightarrow> dedup" where
  "set_queue subreddits d = d\<lparr>queued_subreddits := fset_of_list (map lower subreddits)\<rparr>"

definition is_user_seen :: "dedup \<Rightarrow> string \<Rightarrow> bool" where
  "is_user_seen d username = (lower username |\<in>| seen_users d)"

definition filter_new_users :: "string fset \<Rightarrow> dedup \<Rightarrow> fs \<Rightarrow> string fset \<times> dedup \<times> fs" where
  "filter_new_users users d disk =
     (let users_lower = lower |`| users;
          new_users_lower = users_lower |-| seen_users d
      in if new_users_lower = {||} then ({||}, d, disk)
         else
           (let new_users = ffilter (\<lambda>u. lower u |\<in>| new_users_lower) users;
                d1 = d\<lparr>seen_users := seen_users d |\<union>| new_users_lower,
                        user_ops_since_save := user_ops_since_save d + fcard new_users_lower\<rparr>
            in if user_ops_since_save d1 \<ge> DEDUP_PERSIST_INTERVAL * 10
               then (new_users, save_state False d1 disk) else (new_users, d1, disk)))"

text \<open>The DedupState invariant of the data model.\<close>

definition dedup_inv :: "dedup \<Rightarrow> bool" where
  "dedup_inv d =
     (processed_subreddits d |\<inter>| queued_subreddits d = {||} \<and>
      processed_subreddits d |\<subseteq>| discovered_subreddits d)"

section \<open>Export Batcher: \<open>UserExporter\<close> (pipeline.py)\<close>

record exporter =
  pending_users :: "string fset"
  chunk_count :: nat
  total_exported :: nat
  total_uploaded :: nat
  ssh_enabled :: bool

definition exporter_init :: "bool \<Rightarrow> exporter" where
  "exporter_init ssh = \<lparr>pending_users = {||}, chunk_count = 0, total_exported = 0,
     total_uploaded = 0, ssh_enabled = ssh\<rparr>"

text \<open>\<open>UserExporter._load_state\<close>: any failure while reading is passed over.\<close>

definition exporter_load_state :: "bool \<Rightarrow> fs \<Rightarrow> exporter" where
  "exporter_load_state ssh disk =
     (case files disk ExporterStateFile of
        Some (ExporterDoc cc te tu pending) \<Rightarrow>
          \<lparr>pending_users = fset_of_list pending, chunk_count = cc, total_exported = te,
           total_uploaded = tu, ssh_enabled = ssh\<rparr>
      | _ \<Rightarrow> exporter_init ssh)"

text \<open>\<open>UserExporter._save_state\<close>: the write is not guarded by any \<open>try\<close>.\<close>

definition exporter_save_state :: "exporter \<Rightarrow> fs \<Rightarrow> error + fs" where
  "exporter_save_state e disk =
     write_file disk ExporterStateFile
       (ExporterDoc (chunk_count e) (total_exported e) (total_uploaded e)
          (list_of (pending_users e)))"

definition exporter_add_users ::
    "string fset \<Rightarrow> exporter \<Rightarrow> dedup \<Rightarrow> fs \<Rightarrow> nat \<times> exporter \<times> dedup \<times> fs" where
  "exporter_add_users users e d disk =
     (case filter_new_users users d disk of
        (new_users, d', disk') \<Rightarrow>
          (fcard new_users,
           (if new_users \<noteq> {||}
            then e\<lparr>pending_users := pending_users e |\<union>| new_users\<rparr> else e),
           d', disk'))"

definition should_export :: "int \<Rightarrow> exporter \<Rightarrow> bool" where
  "should_export threshold e = (int (fcard (pending_users e)) \<ge> threshold)"

text \<open>One chunk: the CSV file (header row, one row per user), then the JSON file.\<close>

definition write_chunk :: "fs \<Rightarrow> nat \<Rightarrow> string list \<Rightarrow> error + fs" where
  "write_chunk disk n chunk =
     (case write_file disk (ChunkCsv n) (CsvRows ([''username''] # map (\<lambda>u. [u]) chunk)) of
        Inl err \<Rightarrow> Inl err
      | Inr disk1 \<Rightarrow> write_file disk1 (ChunkJson n) (ChunkDoc chunk (length chunk)))"

text \<open>
  The loop \<open>for i in range(0, len(users_list), USERS_CHUNK_SIZE)\<close> for a positive step,
  on the loop variables (chunk count, chunk files, files created) and the disk.
\<close>

function export_loop ::
    "nat \<Rightarrow> string list \<Rightarrow> nat \<Rightarrow> nat \<times> path list \<times> nat \<times> fs
      \<Rightarrow> error + (nat \<times> path list \<times> nat \<times> fs)" where
  "export_loop step users_list i (cc, chunk_files, files_created, disk) =
     (if step = 0 \<or> length users_list \<le> i then Inr (cc, chunk_files, files_created, disk)
      else
        (case write_chunk disk (cc + 1) (take step (drop i users_list)) of
           Inl err \<Rightarrow> Inl err
         | Inr disk' \<Rightarrow>
             export_loop step users_list (i + step)
               (cc + 1, chunk_files @ [ChunkCsv (cc + 1), ChunkJson (cc + 1)],
                files_created + 1, disk')))"
  by pat_completeness auto
termination
  by (relation "measure (\<lambda>(step, users_list, i, st). length users_list - i)") auto

declare export_loop.simps [simp del]

text \<open>
  The tail of \<open>export_chunks\<close>, after the loop: totals, clearing the buffer, the
  upload, the exporter state save (unguarded) and the forced dedup save. \<open>upload\<close> is the
  Delivery Sink: the number of files it transferred.
\<close>

definition export_finish ::
    "(path list \<Rightarrow> nat) \<Rightarrow> exporter \<Rightarrow> dedup \<Rightarrow> nat \<times> path list \<times> nat \<times> fs
      \<Rightarrow> error + (nat \<times> exporter \<times> dedup \<times> fs)" where
  "export_finish upload e d st =
     (case st of (cc, chunk_files, files_created, disk1) \<Rightarrow>
        (let e1 = e\<lparr>chunk_count := cc,
                     total_exported := total_exported e + fcard (pending_users e),
                     pending_users := {||}\<rparr>;
             e2 = (if ssh_enabled e \<and> chunk_files \<noteq> []
                   then e1\<lparr>total_uploaded := total_uploaded e1 + upload chunk_files\<rparr>
                   else e1)
         in (case exporter_save_state e2 disk1 of
               Inl err \<Rightarrow> Inl err
             | Inr disk2 \<Rightarrow>
                 (case save_state True d disk2 of
                    (d', disk3) \<Rightarrow> Inr (files_created, e2, d', disk3)))))"

text \<open>
  \<open>export_chunks\<close>. \<open>chunk_size\<close> is the module constant \<open>USERS_CHUNK_SIZE\<close> (5000 unless
  set from the command line); \<open>range\<close> raises \<open>ValueError\<close> for step 0 and is empty for a
  negative step.
\<close>

definition export_chunks ::
    "int \<Rightarrow> (path list \<Rightarrow> nat) \<Rightarrow> bool \<Rightarrow> int \<Rightarrow> exporter \<Rightarrow> dedup \<Rightarrow> fs
      \<Rightarrow> error + (nat \<times> exporter \<times> dedup \<times> fs)" where
  "export_chunks chunk_size upload force threshold e d disk =
     (if \<not> force \<and> int (fcard (pending_users e)) < threshold then Inr (0, e, d, disk)
      else if pending_users e = {||} then Inr (0, e, d, disk)
      else if chunk_size = 0 then Inl ValueError
      else
        (case (if chunk_size < 0 then Inr (chunk_count e, [], 0, disk)
               else export_loop (nat chunk_size) (sorted_list_of_fset (pending_users e)) 0
                      (chunk_count e, [], 0, disk)) of
           Inl err \<Rightarrow> Inl err
         | Inr st \<Rightarrow> export_finish upload e d st))"

text \<open>Reading a chunk back: the identity list of the JSON file and of the CSV file.\<close>

definition json_users :: "fs \<Rightarrow> nat \<Rightarrow> string list option" where
  "json_users disk n =
     (case files disk (ChunkJson n) of Some (ChunkDoc us k) \<Rightarrow> Some us | _ \<Rightarrow> None)"

definition csv_users :: "fs \<Rightarrow> nat \<Rightarrow> string list option" where
  "csv_users disk n =
     (case files disk (ChunkCsv n) of Some (CsvRows rows) \<Rightarrow> Some (concat (tl rows)) | _ \<Rightarrow> None)"

text \<open>The number of iterations of the chunk loop over a list of the given length.\<close>

definition nchunks :: "nat \<Rightarrow> nat \<Rightarrow> nat" where
  "nchunks step len = (len + step - 1) div step"

section \<open>Pipeline state: \<open>PipelineState\<close> (pipeline.py)\<close>

record pipeline_state =
  current_batch :: "string list"

text \<open>\<open>PipelineState.save\<close>: an unguarded write, then the forced dedup save.\<close>

definition pipeline_save :: "pipeline_state \<Rightarrow> dedup \<Rightarrow> fs \<Rightarrow> error + (dedup \<times> fs)" where
  "pipeline_save ps d disk =
     (case write_file disk PipelineStateFile (PipelineDoc (current_batch ps)) of
        Inl err \<Rightarrow> Inl err
      | Inr disk1 \<Rightarrow> Inr (save_state True d disk1))"

section \<open>Checkpoint Store: \<open>ScraperState\<close> and \<open>CheckpointManager\<close> (src/checkpoint.py)\<close>

record scraper_state =
  state_discovered_subreddits :: "subreddit_info list"
  discovered_names :: "string fset"
  explore_queue :: "string list"
  completed_keywords :: "string list"
  current_phase :: string

text \<open>The dataclass defaults.\<close>

definition scraper_state_init :: scraper_state where
  "scraper_state_init = \<lparr>state_discovered_subreddits = [], discovered_names = {||},
     explore_queue = [], completed_keywords = [], current_phase = ''init''\<rparr>"

definition to_dict :: "scraper_state \<Rightarrow> content" where
  "to_dict s =
     CheckpointDoc (Some (state_discovered_subreddits s)) (Some (list_of (discovered_names s)))
       (Some (explore_queue s)) (Some (completed_keywords s)) (Some (current_phase s))"

text \<open>\<open>from_dict\<close> on the keys of a JSON object: every key is read with a default.\<close>

definition from_dict ::
    "subreddit_info list option \<Rightarrow> string list option \<Rightarrow> string list option
      \<Rightarrow> string list option \<Rightarrow> string option \<Rightarrow> scraper_state" where
  "from_dict ds ns q ks p =
     \<lparr>state_discovered_subreddits = (case ds of None \<Rightarrow> [] | Some x \<Rightarrow> x),
      discovered_names = fset_of_list (case ns of None \<Rightarrow> [] | Some x \<Rightarrow> x),
      explore_queue = (case q of None \<Rightarrow> [] | Some x \<Rightarrow> x),
      completed_keywords = (case ks of None \<Rightarrow> [] | Some x \<Rightarrow> x),
      current_phase = (case p of None \<Rightarrow> ''init'' | Some x \<Rightarrow> x)\<rparr>"

text \<open>\<open>CheckpointManager.save\<close>: the write sits in a \<open>try\<close>; a failure is logged.\<close>

definition checkpoint_save :: "scraper_state \<Rightarrow> fs \<Rightarrow> fs" where
  "checkpoint_save s disk =
     (case write_file disk CheckpointFile (to_dict s) of
        Inl err \<Rightarrow> disk
      | Inr disk' \<Rightarrow> disk')"

text \<open>
  \<open>CheckpointManager.load\<close>: \<open>None\<close> when the file is missing; \<open>None\<close> as well when
  reading or parsing raises (a file that is not JSON, such as \<open>Corrupt\<close>, line text or
  CSV). A JSON object without the checkpoint keys loads as the defaults.
\<close>

definition checkpoint_load :: "fs \<Rightarrow> scraper_state option" where
  "checkpoint_load disk =
     (case files disk CheckpointFile of
        None \<Rightarrow> None
      | Some c \<Rightarrow>
          (case c of
             CheckpointDoc ds ns q ks p \<Rightarrow> Some (from_dict ds ns q ks p)
           | SubredditsDoc a b \<Rightarrow> Some (from_dict None None None None None)
           | ExporterDoc a b c' pend \<Rightarrow> Some (from_dict None None None None None)
           | PipelineDoc a \<Rightarrow> Some (from_dict None None None None None)
           | ChunkDoc a b \<Rightarrow> Some (from_dict None None None None None)
           | UsersText a \<Rightarrow> None
           | CsvRows a \<Rightarrow> None
           | Corrupt \<Rightarrow> None))"

definition checkpoint_delete :: "fs \<Rightarrow> fs" where
  "checkpoint_delete disk = disk\<lparr>files := (files disk)(CheckpointFile := None)\<rparr>"

section \<open>Crawl Orchestrator: \<open>NSFWSubredditScraper.run\<close> (src/main.py)\<close>

text \<open>
  What one unit of discovery work (one keyword, or one of the listings \<open>popular\<close>,
  \<open>new\<close>, \<open>related\<close>) does, as the remote source and the operator decide: the
  subreddits it yields, the discovery module's name set and queue afterwards, whether it
  ends in an exception, and whether a termination signal arrives while it runs.
\<close>

record outcome =
  infos :: "subreddit_info list"
  names :: "string fset"
  queue :: "string list"
  raised :: bool
  stopped :: bool

record run_state =
  state :: scraper_state
  running :: bool
  entered :: "string list"
  run_disk :: fs

text \<open>\<open>_save_checkpoint\<close>, with the discovery module's sets copied into the state.\<close>

definition save_checkpoint :: "outcome \<Rightarrow> run_state \<Rightarrow> run_state" where
  "save_checkpoint oc rs =
     (let s = (state rs)\<lparr>discovered_names := names oc, explore_queue := queue oc\<rparr>
      in rs\<lparr>state := s, run_disk := checkpoint_save s (run_disk rs)\<rparr>)"

text \<open>\<open>_process_subreddit\<close> for everything the unit yields, and the signal handler.\<close>

definition work :: "outcome \<Rightarrow> run_state \<Rightarrow> run_state" where
  "work oc rs =
     rs\<lparr>state := (state rs)\<lparr>state_discovered_subreddits :=
                       state_discovered_subreddits (state rs) @ infos oc\<rparr>,
        running := (running rs \<and> \<not> stopped oc)\<rparr>"

text \<open>The keyword loop of phase 1.\<close>

fun keyword_loop :: "(string \<Rightarrow> outcome) \<Rightarrow> string list \<Rightarrow> run_state \<Rightarrow> run_state" where
  "keyword_loop env [] rs = rs"
| "keyword_loop env (keyword # rest) rs =
     (if \<not> running rs then rs
      else
        (let rs1 = work (env keyword) rs
         in if raised (env keyword) then save_checkpoint (env keyword) rs1
            else keyword_loop env rest
                   (save_checkpoint (env keyword)
                      (rs1\<lparr>state := (state rs1)\<lparr>completed_keywords :=
                                        completed_keywords (state rs1) @ [keyword]\<rparr>\<rparr>))))"

definition enter :: "string \<Rightarrow> run_state \<Rightarrow> run_state" where
  "enter phase rs =
     rs\<lparr>state := (state rs)\<lparr>current_phase := phase\<rparr>, entered := entered rs @ [phase]\<rparr>"




text \<open>The state \<open>run\<close> starts from: the loaded checkpoint, or the defaults.\<close>

definition resume_state :: "fs \<Rightarrow> scraper_state" where
  "resume_state d = (case checkpoint_load d of Some s \<Rightarrow> s | None \<Rightarrow> scraper_state_init)"



section \<open>Recovery Controller: the retry loops\<close>

subsection \<open>\<open>gather_commenters_for_subreddit\<close> (mini/scrape_commenters.py)\<close>

text \<open>
  What the remote source answers to one request: a result, \<open>TooManyRequestsError\<close>,
  another exception whose message names a recoverable condition, or any other
  exception.
\<close>

datatype 'a response = Ok 'a | TooManyRequests | Recoverable | Permanent

text \<open>
  \<open>fetch_with_retry\<close>: \<open>srv k\<close> is the answer to the \<open>k\<close>-th attempt. The result is what
  the function returns or raises, with the attempts made and the rotations requested
  (\<open>refresh_callback\<close>, when one is given). Only \<open>TooManyRequestsError\<close> is caught.
\<close>

function fetch_with_retry ::
    "(nat \<Rightarrow> string list response) \<Rightarrow> bool \<Rightarrow> nat \<Rightarrow> nat \<Rightarrow> nat
      \<Rightarrow> (error + string list) \<times> nat \<times> nat" where
  "fetch_with_retry srv has_callback max_retries attempt rotations =
     (if max_retries \<le> attempt then (Inr [], attempt, rotations)
      else
        (case srv attempt of
           Ok found \<Rightarrow> (Inr found, attempt + 1, rotations)
         | TooManyRequests \<Rightarrow>
             (if attempt < max_retries - 1
              then fetch_with_retry srv has_callback max_retries (attempt + 1)
                     (if has_callback then rotations + 1 else rotations)
              else (Inr [], attempt + 1, rotations))
         | Recoverable \<Rightarrow> (Inl OtherError, attempt + 1, rotations)
         | Permanent \<Rightarrow> (Inl OtherError, attempt + 1, rotations)))"
  by pat_completeness auto
termination
  by (relation "measure (\<lambda>(srv, cb, max_retries, attempt, r). max_retries - attempt)") auto

declare fetch_with_retry.simps [simp del]

text \<open>
  The loop around \<open>scrape_post_details\<close> for one post (\<open>max_retries = 8\<close> in the source):
  the details if any, and \<open>retry\<close>, which is also the number of container restarts.
\<close>

function scrape_post_loop ::
    "(nat \<Rightarrow> 'a response) \<Rightarrow> nat \<Rightarrow> nat \<Rightarrow> 'a option \<times> nat" where
  "scrape_post_loop srv max_retries retry =
     (if max_retries \<le> retry then (None, retry)
      else
        (case srv retry of
           Ok details \<Rightarrow> (Some details, retry)
         | TooManyRequests \<Rightarrow> scrape_post_loop srv max_retries (retry + 1)
         | Recoverable \<Rightarrow> scrape_post_loop srv max_retries (retry + 1)
         | Permanent \<Rightarrow> (None, retry)))"
  by pat_completeness auto
termination
  by (relation "measure (\<lambda>(srv, max_retries, retry). max_retries - retry)") auto

declare scrape_post_loop.simps [simp del]

subsection \<open>\<open>GluetunController.restart_for_new_ip\<close> (src/gluetun_controller.py)\<close>

text \<open>
  What one restart of the container meets: no such container, a Docker API error on
  restart, a container that does not become healthy, no IP after the restart, the same
  IP as before, or a new IP.
\<close>

datatype restart_outcome = ContainerMissing | ApiError | Unhealthy | NoIp | SameIp | NewIp

record controller =
  restart_count :: nat
  max_restart_attempts :: nat

definition restart_for_new_ip ::
    "restart_outcome \<Rightarrow> controller \<Rightarrow> (error + bool) \<times> controller" where
  "restart_for_new_ip oc c =
     (if restart_count c \<ge> max_restart_attempts c then (Inl GluetunControllerError, c)
      else
        (case oc of
           ContainerMissing \<Rightarrow> (Inl GluetunControllerError, c)
         | ApiError \<Rightarrow> (Inr False, c)
         | Unhealthy \<Rightarrow> (Inr False, c\<lparr>restart_count := restart_count c + 1\<rparr>)
         | NoIp \<Rightarrow> (Inr False, c\<lparr>restart_count := restart_count c + 1\<rparr>)
         | SameIp \<Rightarrow> (Inr True, c\<lparr>restart_count := restart_count c + 1\<rparr>)
         | NewIp \<Rightarrow> (Inr True, c\<lparr>restart_count := 0\<rparr>)))"

subsection \<open>\<open>_handle_rate_limit_or_block\<close> and \<open>_run_with_recovery\<close> (src/main.py)\<close>

definition handle_rate_limit_or_block :: "restart_outcome \<Rightarrow> controller \<Rightarrow> bool \<times> controller" where
  "handle_rate_limit_or_block oc c =
     (case restart_for_new_ip oc c of
        (Inl err, c') \<Rightarrow> (False, c')
      | (Inr ok, c') \<Rightarrow> (ok, c'))"

text \<open>
  One pass over the wrapped generator: it runs to its end, raises a rate-limit or
  blocked error, or raises something else.
\<close>

datatype gen_outcome = Completed | RateLimited | Crashed

text \<open>How \<open>_run_with_recovery\<close> ends, with the number of retries it made.\<close>

datatype recovery_result = Returned nat | Raised error nat

text \<open>
  \<open>_run_with_recovery\<close>: \<open>gen k\<close> is the \<open>k\<close>-th pass over the generator, \<open>rot k\<close> what the
  restart after it meets, \<open>running_at k\<close> the stop flag before it. The loop has no
  counter of its own; \<open>None\<close> is a loop that never ends.
\<close>

partial_function (option) run_with_recovery ::
    "(nat \<Rightarrow> gen_outcome) \<Rightarrow> (nat \<Rightarrow> restart_outcome) \<Rightarrow> (nat \<Rightarrow> bool) \<Rightarrow> controller \<Rightarrow> nat
      \<Rightarrow> recovery_result option" where
  "run_with_recovery gen rot running_at c k =
     (if \<not> running_at k then Some (Returned k)
      else
        (case gen k of
           Completed \<Rightarrow> Some (Returned k)
         | Crashed \<Rightarrow> Some (Raised OtherError k)
         | RateLimited \<Rightarrow>
             (case handle_rate_limit_or_block (rot k) c of
                (ok, c') \<Rightarrow>
                  if ok then run_with_recovery gen rot running_at c' (k + 1)
                  else Some (Raised RateLimitOrBlocked k))))"

declare run_with_recovery.simps [code]

definition retries_of :: "recovery_result \<Rightarrow> nat" where
  "retries_of r = (case r of Returned k \<Rightarrow> k | Raised err k \<Rightarrow> k)"

section \<open>A run of the pipeline on the Dedup Store and the Export Batcher\<close>

text \<open>
  What \<open>IntegratedPipeline\<close> does to the dedup store and the exporter is a sequence of
  calls: \<open>add_users\<close> after each subreddit, \<open>export_chunks\<close> (at the threshold, forced at
  the end and in the signal handler), \<open>save_state\<close> of the dedup store, and, when the
  process is stopped between two calls and started again, the two constructors, which
  reload what was persisted.
\<close>

datatype event =
    AddUsers "string fset"
  | ExportChunks bool int
  | SaveDedup bool
  | Restart

text \<open>The constructors \<open>DeduplicationManager(...)\<close> and \<open>UserExporter(...)\<close> on a disk.\<close>

definition construct :: "bool \<Rightarrow> fs \<Rightarrow> exporter \<times> dedup \<times> fs" where
  "construct ssh disk = (exporter_load_state ssh disk, load_state disk, disk)"

definition pipeline_step ::
    "int \<Rightarrow> (path list \<Rightarrow> nat) \<Rightarrow> bool \<Rightarrow> event \<Rightarrow> exporter \<times> dedup \<times> fs
      \<Rightarrow> error + exporter \<times> dedup \<times> fs" where
  "pipeline_step chunk_size upload ssh ev w =
     (case w of (e, d, disk) \<Rightarrow>
        (case ev of
           AddUsers users \<Rightarrow>
             (case exporter_add_users users e d disk of (k, e', d', disk') \<Rightarrow> Inr (e', d', disk'))
         | ExportChunks force threshold \<Rightarrow>
             (case export_chunks chunk_size upload force threshold e d disk of
                Inl err \<Rightarrow> Inl err
              | Inr (n, e', d', disk') \<Rightarrow> Inr (e', d', disk'))
         | SaveDedup force \<Rightarrow>
             (case save_state force d disk of (d', disk') \<Rightarrow> Inr (e, d', disk'))
         | Restart \<Rightarrow> Inr (construct ssh disk)))"

fun pipeline_run ::
    "int \<Rightarrow> (path list \<Rightarrow> nat) \<Rightarrow> bool \<Rightarrow> event list \<Rightarrow> exporter \<times> dedup \<times> fs
      \<Rightarrow> error + exporter \<times> dedup \<times> fs" where
  "pipeline_run chunk_size upload ssh [] w = Inr w"
| "pipeline_run chunk_size upload ssh (ev # evs) w =
     (case pipeline_step chunk_size upload ssh ev w of
        Inl err \<Rightarrow> Inl err
      | Inr w' \<Rightarrow> pipeline_run chunk_size upload ssh evs w')"

text \<open>The identity lists of the chunk files \<open>1..k\<close>, one after the other.\<close>

definition all_chunk_users :: "fs \<Rightarrow> nat \<Rightarrow> string list" where
  "all_chunk_users disk k =
     concat (map (\<lambda>n. case json_users disk n of Some us \<Rightarrow> us | None \<Rightarrow> []) [1..<Suc k])"

text \<open>
  A name that is not empty, neither starts nor ends with white space, and holds no line
  break (\<open>\n\<close>, \<open>\r\<close>): a name that one line of the users file gives back.
\<close>

definition plain_name :: "string \<Rightarrow> bool" where
  "plain_name u = (u \<noteq> [] \<and> \<not> is_space (hd u) \<and> \<not> is_space (last u) \<and>
                   CHR 0x0A \<notin> set u \<and> CHR 0x0D \<notin> set u)"

text \<open>The names every \<open>AddUsers\<close> event of a run carries.\<close>

fun event_users :: "event \<Rightarrow> string fset" where
  "event_users (AddUsers users) = users"
| "event_users ev = {||}"

text \<open>The names that a reload reads from the persisted users file.\<close>

definition users_lines :: "fs \<Rightarrow> string list" where
  "users_lines disk =
     (case files disk DedupUsersFile of Some (UsersText t) \<Rightarrow> read_users t | _ \<Rightarrow> [])"


text \<open>
  The invariant of a run: what is in memory and on disk after every call, as long as
  no write fails. \<open>ci\<close> says that no call of \<open>add_users\<close> carried two casings of one
  name; then the exported and the buffered names differ pairwise also when compared
  without regard to case.
\<close>

definition pipeline_inv :: "bool \<Rightarrow> bool \<Rightarrow> exporter \<times> dedup \<times> fs \<Rightarrow> bool" where
  "pipeline_inv ssh ci w =
     (case w of (e, d, disk) \<Rightarrow>
        unwritable disk = {} \<and>
        (\<forall>u. u |\<in>| pending_users e \<longrightarrow> lower u |\<in>| seen_users d) \<and>
        (\<forall>u. u |\<in>| seen_users d \<longrightarrow> plain_name u) \<and>
        (\<forall>n. files disk (ChunkJson n) \<noteq> None \<longleftrightarrow> 1 \<le> n \<and> n \<le> chunk_count e) \<and>
        distinct (all_chunk_users disk (chunk_count e)) \<and>
        (\<forall>u \<in> set (all_chunk_users disk (chunk_count e)).
           lower u |\<in>| seen_users d \<and> u |\<notin>| pending_users e \<and>
           lower u \<in> set (users_lines disk)) \<and>
        (\<forall>l \<in> set (users_lines disk). plain_name l) \<and>
        chunk_count (exporter_load_state ssh disk) = chunk_count e \<and>
        pending_users (exporter_load_state ssh disk) = {||} \<and>
        (ci \<longrightarrow>
           distinct (map lower (all_chunk_users disk (chunk_count e))) \<and>
           inj_on lower (fset (pending_users e)) \<and>
           lower ` set (all_chunk_users disk (chunk_count e)) \<inter> lower ` fset (pending_users e) = {}))"

section \<open>Properties of the Dedup Store\<close>

lemma save_state_sets:
  "seen_users (fst (save_state force d disk)) = seen_users d"
  "discovered_subreddits (fst (save_state force d disk)) = discovered_subreddits d"
  "processed_subreddits (fst (save_state force d disk)) = processed_subreddits d"
  "queued_subreddits (fst (save_state force d disk)) = queued_subreddits d"
  by (simp_all add: save_state_def save_subreddits_def save_users_def
        split: sum.splits prod.splits)

lemma fminus_empty_iff: "(A |-| B = {||}) = (\<forall>x. x |\<in>| A \<longrightarrow> x |\<in>| B)"
  by auto

lemma filter_new_users_seen:
  "seen_users (fst (snd (filter_new_users users d disk))) = seen_users d |\<union>| lower |`| users"
proof (cases "lower |`| users |-| seen_users d = {||}")
  case True
  then have "seen_users d |\<union>| lower |`| users = seen_users d"
    by auto
  with True show ?thesis
    by (simp add: filter_new_users_def)
next
  case False
  have "seen_users d |\<union>| (lower |`| users |-| seen_users d) = seen_users d |\<union>| lower |`| users"
    by auto
  with False show ?thesis
    by (simp add: filter_new_users_def Let_def save_state_sets)
qed

lemma filter_new_users_result:
  "fst (filter_new_users users d disk) = ffilter (\<lambda>u. lower u |\<notin>| seen_users d) users"
proof (cases "lower |`| users |-| seen_users d = {||}")
  case True
  then have "\<forall>u. u |\<in>| users \<longrightarrow> lower u |\<in>| seen_users d"
    unfolding fminus_empty_iff by blast
  then have "ffilter (\<lambda>u. lower u |\<notin>| seen_users d) users = {||}"
    by auto
  with True show ?thesis
    by (simp add: filter_new_users_def)
next
  case False
  have "ffilter (\<lambda>u. lower u |\<in>| lower |`| users |-| seen_users d) users
        = ffilter (\<lambda>u. lower u |\<notin>| seen_users d) users"
    by auto
  with False show ?thesis
    by (simp add: filter_new_users_def Let_def)
qed

text \<open>
  C2. For every set of names (casing variants of one name included): on a store in which
  no member has been seen, \<open>filter_new_users\<close> returns the whole set, and the call
  made right after on the resulting store returns the empty set.
\<close>

theorem filter_new_users_twice:
  assumes "\<forall>u. u |\<in>| users \<longrightarrow> \<not> is_user_seen d u"
  shows "fst (filter_new_users users d disk) = users \<and>
         (case filter_new_users users d disk of
            (r, d', disk') \<Rightarrow> fst (filter_new_users users d' disk') = {||})"
proof
  show "fst (filter_new_users users d disk) = users"
    using assms by (auto simp: filter_new_users_result is_user_seen_def)
next
  obtain r d' disk' where c: "filter_new_users users d disk = (r, d', disk')"
    by (cases "filter_new_users users d disk") auto
  have "seen_users d' = seen_users d |\<union>| lower |`| users"
    using filter_new_users_seen [of users d disk] c by simp
  then have "fst (filter_new_users users d' disk') = {||}"
    by (auto simp: filter_new_users_result)
  with c show "case filter_new_users users d disk of
      (r, d', disk') \<Rightarrow> fst (filter_new_users users d' disk') = {||}"
    by simp
qed

theorem filter_new_users_twice_witness:
  "\<not> is_user_seen dedup_init ''Alice'' \<and> \<not> is_user_seen dedup_init ''ALICE'' \<and>
   \<not> is_user_seen dedup_init ''bob'' \<and>
   fst (filter_new_users {|''Alice'', ''ALICE'', ''bob''|} dedup_init fs_empty)
     = {|''Alice'', ''ALICE'', ''bob''|} \<and>
   (case filter_new_users {|''Alice'', ''ALICE'', ''bob''|} dedup_init fs_empty of
      (r, d', disk') \<Rightarrow> fst (filter_new_users {|''Alice'', ''ALICE'', ''bob''|} d' disk') = {||})"
proof -
  have h: "\<forall>u. u |\<in>| {|''Alice'', ''ALICE'', ''bob''|} \<longrightarrow> \<not> is_user_seen dedup_init u"
    by (simp add: is_user_seen_def dedup_init_def)
  have "\<not> is_user_seen dedup_init ''Alice'' \<and> \<not> is_user_seen dedup_init ''ALICE'' \<and>
        \<not> is_user_seen dedup_init ''bob''"
    using h by simp
  with filter_new_users_twice [OF h, of fs_empty] show ?thesis
    by blast
qed

subsection \<open>The DedupState invariant under the store's operations\<close>

lemma save_state_inv: "dedup_inv (fst (save_state force d disk)) = dedup_inv d"
  by (simp add: dedup_inv_def save_state_sets)

lemma lower_Foo: "lower ''Foo'' = ''foo''"
  by code_simp

lemma lower_foo: "lower ''foo'' = ''foo''"
  by code_simp

text \<open>
  C5, as stated, fails: \<open>mark_subreddit_processed\<close> adds a name to the processed set
  without looking at the discovered set, and \<open>mark_subreddit_queued\<close> and \<open>set_queue\<close>
  add names to the queued set without looking at the processed set.
\<close>

theorem dedup_inv_not_preserved:
  "dedup_inv dedup_init \<and>
   \<not> dedup_inv (fst (mark_subreddit_processed ''foo'' dedup_init fs_empty)) \<and>
   dedup_inv (dedup_init\<lparr>discovered_subreddits := {|''foo''|}, processed_subreddits := {|''foo''|}\<rparr>) \<and>
   \<not> dedup_inv (mark_subreddit_queued ''Foo''
        (dedup_init\<lparr>discovered_subreddits := {|''foo''|}, processed_subreddits := {|''foo''|}\<rparr>)) \<and>
   \<not> dedup_inv (set_queue [''Foo'']
        (dedup_init\<lparr>discovered_subreddits := {|''foo''|}, processed_subreddits := {|''foo''|}\<rparr>))"
  by (simp add: dedup_inv_def dedup_init_def mark_subreddit_processed_def
        mark_subreddit_queued_def set_queue_def Let_def DEDUP_PERSIST_INTERVAL_def
        lower_Foo lower_foo)

text \<open>
  C5, amended. From a state that satisfies the invariant (processed and queued
  disjoint, processed within discovered): \<open>mark_subreddit_discovered\<close> and
  \<open>clear_queue\<close> keep it; \<open>mark_subreddit_queued\<close> and \<open>set_queue\<close> keep it when no
  name they enqueue is processed; \<open>mark_subreddit_processed\<close> keeps it when the name
  is already discovered.
\<close>

theorem dedup_inv_preserved:
  assumes "dedup_inv d"
  shows "dedup_inv (fst (snd (mark_subreddit_discovered name d disk))) \<and>
         dedup_inv (clear_queue d) \<and>
         (\<not> is_subreddit_processed d name \<longrightarrow> dedup_inv (mark_subreddit_queued name d)) \<and>
         ((\<forall>s \<in> set subreddits. \<not> is_subreddit_processed d s) \<longrightarrow>
            dedup_inv (set_queue subreddits d)) \<and>
         (is_subreddit_seen d name \<longrightarrow>
            dedup_inv (fst (mark_subreddit_processed name d disk)))"
proof (intro conjI impI)
  show "dedup_inv (fst (snd (mark_subreddit_discovered name d disk)))"
    using assms
    by (auto simp: mark_subreddit_discovered_def Let_def save_state_inv)
       (auto simp: dedup_inv_def)
  show "dedup_inv (clear_queue d)"
    using assms by (auto simp: dedup_inv_def clear_queue_def)
  show "dedup_inv (mark_subreddit_queued name d)" if "\<not> is_subreddit_processed d name"
    using assms that
    by (auto simp: dedup_inv_def mark_subreddit_queued_def is_subreddit_processed_def)
  show "dedup_inv (set_queue subreddits d)"
    if "\<forall>s \<in> set subreddits. \<not> is_subreddit_processed d s"
    using assms that
    by (auto simp: dedup_inv_def set_queue_def is_subreddit_processed_def fset_of_list_elem)
  show "dedup_inv (fst (mark_subreddit_processed name d disk))" if "is_subreddit_seen d name"
    using assms that
    by (auto simp: mark_subreddit_processed_def Let_def save_state_inv)
       (auto simp: dedup_inv_def is_subreddit_seen_def)
qed

theorem dedup_inv_preserved_witness:
  "dedup_inv (dedup_init\<lparr>discovered_subreddits := {|''foo''|}\<rparr>) \<and>
   \<not> is_subreddit_processed (dedup_init\<lparr>discovered_subreddits := {|''foo''|}\<rparr>) ''Foo'' \<and>
   is_subreddit_seen (dedup_init\<lparr>discovered_subreddits := {|''foo''|}\<rparr>) ''Foo'' \<and>
   dedup_inv (mark_subreddit_queued ''Foo'' (dedup_init\<lparr>discovered_subreddits := {|''foo''|}\<rparr>)) \<and>
   dedup_inv (set_queue [''Foo''] (dedup_init\<lparr>discovered_subreddits := {|''foo''|}\<rparr>)) \<and>
   dedup_inv (fst (mark_subreddit_processed ''Foo''
      (dedup_init\<lparr>discovered_subreddits := {|''foo''|}\<rparr>) fs_empty))"
proof -
  have h1: "dedup_inv (dedup_init\<lparr>discovered_subreddits := {|''foo''|}\<rparr>)"
    by (simp add: dedup_inv_def dedup_init_def)
  have h2: "\<not> is_subreddit_processed (dedup_init\<lparr>discovered_subreddits := {|''foo''|}\<rparr>) ''Foo''"
    by (simp add: is_subreddit_processed_def dedup_init_def)
  have h3: "is_subreddit_seen (dedup_init\<lparr>discovered_subreddits := {|''foo''|}\<rparr>) ''Foo''"
    by (simp add: is_subreddit_seen_def dedup_init_def lower_Foo)
  from dedup_inv_preserved [OF h1, of "''Foo''" fs_empty "[''Foo'']"] h1 h2 h3
  show ?thesis by simp
qed

section \<open>Properties of the Export Batcher\<close>

lemma nchunks_0 [simp]: "0 < step \<Longrightarrow> nchunks step 0 = 0"
  by (simp add: nchunks_def)

lemma nchunks_step: "0 < step \<Longrightarrow> 0 < len \<Longrightarrow> nchunks step len = Suc (nchunks step (len - step))"
proof (cases "len \<le> step")
  case True
  assume "0 < step" "0 < len"
  with True have "(len + step - 1) div step = 1"
    by (simp add: div_nat_eqI)
  with True \<open>0 < step\<close> show ?thesis by (simp add: nchunks_def)
next
  case False
  assume "0 < step"
  from False have "len + step - 1 = (len - step + step - 1) + step" by simp
  then have "(len + step - 1) div step = Suc ((len - step + step - 1) div step)"
    using \<open>0 < step\<close> by (metis div_add_self2 less_numeral_extra(3) Suc_eq_plus1 add.commute)
  then show ?thesis by (simp add: nchunks_def)
qed

lemma nchunks_ceiling:
  assumes "0 < step"
  shows "int (nchunks step len) = \<lceil>real len / real step\<rceil>"
proof -
  define k where "k = (len + step - 1) div step"
  have "k * step \<le> len + step - 1"
    unfolding k_def by simp
  with assms have up: "k * step < len + step" by linarith
  have "len + step - 1 < step + k * step"
    unfolding k_def using assms by (rule dividend_less_div_times)
  with assms have lo: "len \<le> k * step" by linarith
  from up have "real (k * step) < real (len + step)"
    by (simp only: of_nat_less_iff)
  then have "(real k - 1) * real step < real len"
    by (simp add: algebra_simps)
  then have a: "real_of_int (int k) - 1 < real len / real step"
    using assms by (simp add: pos_less_divide_eq)
  from lo have "real len \<le> real (k * step)"
    by (simp only: of_nat_le_iff)
  then have b: "real len / real step \<le> real_of_int (int k)"
    using assms by (simp add: pos_divide_le_eq)
  from a b have "\<lceil>real len / real step\<rceil> = int k"
    by (rule ceiling_unique)
  then show ?thesis by (simp add: nchunks_def k_def)
qed

lemma concat_slices:
  assumes "0 < step"
  shows "concat (map (\<lambda>j. take step (drop (i + j * step) us)) [0..<nchunks step (length us - i)])
         = drop i us"
  using assms
proof (induction "length us - i" arbitrary: i rule: less_induct)
  case less
  show ?case
  proof (cases "length us \<le> i")
    case True
    with less.prems show ?thesis by simp
  next
    case False
    then have pos: "0 < length us - i" by simp
    have n: "nchunks step (length us - i) = Suc (nchunks step (length us - (i + step)))"
      using nchunks_step [OF less.prems pos] by simp
    have lt: "length us - (i + step) < length us - i"
      using False less.prems by simp
    have "concat (map (\<lambda>j. take step (drop (i + j * step) us)) [0..<Suc (nchunks step (length us - (i + step)))])
          = take step (drop i us) @
            concat (map (\<lambda>j. take step (drop ((i + step) + j * step) us)) [0..<nchunks step (length us - (i + step))])"
      by (simp only: upt_conv_Cons [OF zero_less_Suc] map_Suc_upt [symmetric])
         (simp add: map_Suc_upt [symmetric] del: upt_Suc add: comp_def add.assoc add.commute add.left_commute)
    also have "\<dots> = take step (drop i us) @ drop (i + step) us"
      using less.hyps [OF lt less.prems] by simp
    also have "\<dots> = drop i us"
      by (metis add.commute append_take_drop_id drop_drop)
    finally show ?thesis using n by simp
  qed
qed


lemma write_chunk_Inr:
  assumes "write_chunk disk n chunk = Inr disk'"
  shows "files disk' = (files disk)
           (ChunkCsv n \<mapsto> CsvRows ([''username''] # map (\<lambda>u. [u]) chunk),
            ChunkJson n \<mapsto> ChunkDoc chunk (length chunk))"
    and "unwritable disk' = unwritable disk"
  using assms
  by (auto simp: write_chunk_def write_file_def split: if_splits sum.splits)

lemma write_chunk_writable:
  "unwritable disk = {} \<Longrightarrow> \<exists>disk'. write_chunk disk n chunk = Inr disk'"
  by (simp add: write_chunk_def write_file_def)

lemma export_loop_spec:
  assumes "0 < step"
    and "export_loop step us i (cc, cf, fc, disk) = Inr (cc', cf', fc', disk')"
  shows "cc' = cc + nchunks step (length us - i) \<and>
         fc' = fc + nchunks step (length us - i) \<and>
         unwritable disk' = unwritable disk \<and>
         length cf' = length cf + 2 * nchunks step (length us - i) \<and>
         (\<forall>j < nchunks step (length us - i).
            files disk' (ChunkJson (cc + 1 + j))
              = Some (ChunkDoc (take step (drop (i + j * step) us))
                       (length (take step (drop (i + j * step) us)))) \<and>
            files disk' (ChunkCsv (cc + 1 + j))
              = Some (CsvRows ([''username''] # map (\<lambda>u. [u]) (take step (drop (i + j * step) us))))) \<and>
         (\<forall>p. (\<forall>n. cc < n \<and> n \<le> cc' \<longrightarrow> p \<noteq> ChunkCsv n \<and> p \<noteq> ChunkJson n)
              \<longrightarrow> files disk' p = files disk p)"
  using assms
proof (induction step us i "(cc, cf, fc, disk)" arbitrary: cc cf fc disk
        rule: export_loop.induct)
  case (1 step us i cc cf fc disk)
  show ?case
  proof (cases "length us \<le> i")
    case True
    with "1.prems" show ?thesis by (simp add: export_loop.simps)
  next
    case False
    with "1.prems" obtain disk1 where
      w: "write_chunk disk (cc + 1) (take step (drop i us)) = Inr disk1"
      and r: "export_loop step us (i + step)
                (cc + 1, cf @ [ChunkCsv (cc + 1), ChunkJson (cc + 1)], fc + 1, disk1)
              = Inr (cc', cf', fc', disk')"
      by (auto simp: export_loop.simps split: sum.splits)
    have ne: "\<not> (step = 0 \<or> length us \<le> i)"
      using False "1.prems"(1) by simp
    note ih = "1.hyps" [OF ne w "1.prems"(1) r]
    have n: "nchunks step (length us - i) = Suc (nchunks step (length us - (i + step)))"
      using nchunks_step [of step "length us - i"] False "1.prems"(1) by simp
    note wf = write_chunk_Inr [OF w]
    have cc': "cc' = cc + 1 + nchunks step (length us - (i + step))"
      using ih by simp
    show ?thesis
    proof (intro conjI allI impI)
      show "cc' = cc + nchunks step (length us - i)" using ih n by simp
      show "fc' = fc + nchunks step (length us - i)" using ih n by simp
      show "unwritable disk' = unwritable disk" using ih wf by simp
      show "length cf' = length cf + 2 * nchunks step (length us - i)" using ih n by simp
    next
      fix j assume j: "j < nchunks step (length us - i)"
      show "files disk' (ChunkJson (cc + 1 + j))
              = Some (ChunkDoc (take step (drop (i + j * step) us))
                       (length (take step (drop (i + j * step) us))))"
      proof (cases j)
        case 0
        have "files disk' (ChunkJson (cc + 1)) = files disk1 (ChunkJson (cc + 1))"
          using ih by auto
        with 0 wf show ?thesis by simp
      next
        case (Suc j')
        with j n have "j' < nchunks step (length us - (i + step))" by simp
        with ih have "files disk' (ChunkJson (cc + 1 + 1 + j'))
              = Some (ChunkDoc (take step (drop (i + step + j' * step) us))
                       (length (take step (drop (i + step + j' * step) us))))"
          by blast
        with Suc show ?thesis by (simp add: add.assoc add.commute add.left_commute)
      qed
      show "files disk' (ChunkCsv (cc + 1 + j))
              = Some (CsvRows ([''username''] # map (\<lambda>u. [u]) (take step (drop (i + j * step) us))))"
      proof (cases j)
        case 0
        have "files disk' (ChunkCsv (cc + 1)) = files disk1 (ChunkCsv (cc + 1))"
          using ih by auto
        with 0 wf show ?thesis by simp
      next
        case (Suc j')
        with j n have "j' < nchunks step (length us - (i + step))" by simp
        with ih have "files disk' (ChunkCsv (cc + 1 + 1 + j'))
              = Some (CsvRows ([''username''] # map (\<lambda>u. [u]) (take step (drop (i + step + j' * step) us))))"
          by blast
        with Suc show ?thesis by (simp add: add.assoc add.commute add.left_commute)
      qed
    next
      fix p assume p: "\<forall>n. cc < n \<and> n \<le> cc' \<longrightarrow> p \<noteq> ChunkCsv n \<and> p \<noteq> ChunkJson n"
      have le: "cc + 1 \<le> cc'" using cc' by simp
      from p le have p1: "p \<noteq> ChunkCsv (cc + 1) \<and> p \<noteq> ChunkJson (cc + 1)"
        by (metis less_add_one)
      from p have "\<forall>n. cc + 1 < n \<and> n \<le> cc' \<longrightarrow> p \<noteq> ChunkCsv n \<and> p \<noteq> ChunkJson n"
        by simp
      with ih have "files disk' p = files disk1 p" by blast
      with p1 wf show "files disk' p = files disk p" by simp
    qed
  qed
qed


lemma export_loop_writable:
  assumes "unwritable disk = {}"
  shows "\<exists>r. export_loop step us i (cc, cf, fc, disk) = Inr r"
  using assms
proof (induction step us i "(cc, cf, fc, disk)" arbitrary: cc cf fc disk
        rule: export_loop.induct)
  case (1 step us i cc cf fc disk)
  show ?case
  proof (cases "step = 0 \<or> length us \<le> i")
    case True
    then show ?thesis by (auto simp: export_loop.simps)
  next
    case False
    from write_chunk_writable [OF "1.prems"] obtain disk1 where
      w: "write_chunk disk (cc + 1) (take step (drop i us)) = Inr disk1" by blast
    have "unwritable disk1 = {}"
      using write_chunk_Inr(2) [OF w] "1.prems" by simp
    from "1.hyps" [OF False w this] False w show ?thesis by (simp add: export_loop.simps)
  qed
qed

lemma sorted_list_of_fset_props:
  "sorted (sorted_list_of_fset S)" "distinct (sorted_list_of_fset S)"
  "length (sorted_list_of_fset S) = fcard S"
  by (simp_all add: sorted_list_of_fset.rep_eq fcard.rep_eq)

lemma save_state_files:
  "p \<noteq> DedupSubredditsFile \<Longrightarrow> p \<noteq> DedupUsersFile \<Longrightarrow>
     files (snd (save_state force d disk)) p = files disk p"
  "unwritable (snd (save_state force d disk)) = unwritable disk"
  by (auto simp: save_state_def save_subreddits_def save_users_def write_file_def
        split: sum.splits prod.splits if_splits)

lemma save_state_forced_users:
  "DedupUsersFile \<notin> unwritable disk \<Longrightarrow>
     files (snd (save_state True d disk)) DedupUsersFile
       = Some (UsersText (write_users (sorted_list_of_fset (seen_users d))))"
  by (auto simp: save_state_def save_subreddits_def save_users_def write_file_def
        split: sum.splits prod.splits if_splits)

text \<open>What a call of \<open>export_chunks\<close> that does export leaves behind.\<close>

lemma export_finish_Inr:
  assumes "export_finish upload e d (cc, cf, fc, disk1) = Inr (n, e', d', disk')"
  shows "\<exists>disk2. exporter_save_state e' disk1 = Inr disk2 \<and> n = fc \<and>
           d' = fst (save_state True d disk2) \<and> disk' = snd (save_state True d disk2) \<and>
           pending_users e' = {||} \<and> chunk_count e' = cc"
  using assms
  by (cases "ssh_enabled e \<and> cf \<noteq> []")
     (auto simp: export_finish_def Let_def split: sum.splits prod.splits)

lemma export_finish_writable:
  assumes "unwritable disk1 = {}"
  shows "\<exists>r. export_finish upload e d (cc, cf, fc, disk1) = Inr r"
  using assms
  by (simp add: export_finish_def Let_def exporter_save_state_def write_file_def
        split: prod.splits)

lemma export_chunks_Inr:
  assumes c: "0 < chunk_size"
    and go: "force \<or> threshold \<le> int (fcard (pending_users e))"
    and ne: "pending_users e \<noteq> {||}"
    and r: "export_chunks chunk_size upload force threshold e d disk = Inr (n, e', d', disk')"
  shows "n = nchunks (nat chunk_size) (fcard (pending_users e))"
    and "chunk_count e' = chunk_count e + n"
    and "pending_users e' = {||}"
    and "seen_users d' = seen_users d"
    and "unwritable disk' = unwritable disk"
    and "\<forall>j < n. json_users disk' (chunk_count e + 1 + j)
            = Some (take (nat chunk_size) (drop (j * nat chunk_size)
                      (sorted_list_of_fset (pending_users e)))) \<and>
          csv_users disk' (chunk_count e + 1 + j)
            = Some (take (nat chunk_size) (drop (j * nat chunk_size)
                      (sorted_list_of_fset (pending_users e))))"
    and "\<forall>m. m \<le> chunk_count e \<or> chunk_count e + n < m \<longrightarrow>
          files disk' (ChunkJson m) = files disk (ChunkJson m) \<and>
          files disk' (ChunkCsv m) = files disk (ChunkCsv m)"
    and "files disk' ExporterStateFile
          = Some (ExporterDoc (chunk_count e') (total_exported e') (total_uploaded e') [])"
    and "unwritable disk = {} \<longrightarrow>
          files disk' DedupUsersFile
            = Some (UsersText (write_users (sorted_list_of_fset (seen_users d))))"
proof -
  let ?us = "sorted_list_of_fset (pending_users e)"
  let ?c = "nat chunk_size"
  have unf: "export_chunks chunk_size upload force threshold e d disk =
     (case export_loop ?c ?us 0 (chunk_count e, [], 0, disk) of
        Inl err \<Rightarrow> Inl err | Inr st \<Rightarrow> export_finish upload e d st)"
  proof -
    from go have "(\<not> force \<and> int (fcard (pending_users e)) < threshold) = False" by auto
    moreover from c have "(chunk_size = 0) = False" "(chunk_size < 0) = False" by auto
    ultimately show ?thesis
      using ne unfolding export_chunks_def by (simp only: if_False)
  qed
  obtain cc cf fc disk1 where
    l: "export_loop ?c ?us 0 (chunk_count e, [], 0, disk) = Inr (cc, cf, fc, disk1)"
  proof (cases "export_loop ?c ?us 0 (chunk_count e, [], 0, disk)")
    case (Inl a)
    with r unf show ?thesis by simp
  next
    case (Inr b)
    then show ?thesis using that by (cases b) auto
  qed
  from export_finish_Inr [of upload e d cc cf fc disk1 n e' d' disk'] r unf l
  obtain disk2 where
    s: "exporter_save_state e' disk1 = Inr disk2"
    and res: "n = fc" "d' = fst (save_state True d disk2)"
      "disk' = snd (save_state True d disk2)"
    and pe2: "pending_users e' = {||}" "chunk_count e' = cc"
    by auto
  define e2 where "e2 = e'"
  have res2: "e' = e2" by (simp add: e2_def)
  note res = res res2
  note pe2 = pe2 [unfolded res2]
  note s = s [unfolded res2]
  have cpos: "0 < ?c" using c by simp
  note sp = export_loop_spec [OF cpos l]
  have len: "length ?us = fcard (pending_users e)"
    by (rule sorted_list_of_fset_props)
  have f2: "files disk2 = (files disk1)(ExporterStateFile \<mapsto>
      ExporterDoc (chunk_count e2) (total_exported e2) (total_uploaded e2) [])"
    and u2: "unwritable disk2 = unwritable disk1"
    using s pe2
    by (auto simp: exporter_save_state_def write_file_def list_of_def
          sorted_list_of_fset.rep_eq split: if_splits)
  show "n = nchunks ?c (fcard (pending_users e))"
    using sp res len by simp
  then have ncc: "cc = chunk_count e + n" using sp len by simp
  show "chunk_count e' = chunk_count e + n"
    using ncc res pe2 by simp
  show "pending_users e' = {||}" using res pe2 by simp
  show "seen_users d' = seen_users d" using res by (simp add: save_state_sets)
  show "unwritable disk' = unwritable disk"
    using res sp u2 by (simp add: save_state_files)
  show "\<forall>j < n. json_users disk' (chunk_count e + 1 + j) = Some (take ?c (drop (j * ?c) ?us)) \<and>
          csv_users disk' (chunk_count e + 1 + j) = Some (take ?c (drop (j * ?c) ?us))"
    using sp res f2 len by (simp add: json_users_def csv_users_def save_state_files comp_def)
  show "\<forall>m. m \<le> chunk_count e \<or> chunk_count e + n < m \<longrightarrow>
          files disk' (ChunkJson m) = files disk (ChunkJson m) \<and>
          files disk' (ChunkCsv m) = files disk (ChunkCsv m)"
  proof (intro allI impI)
    fix m assume m: "m \<le> chunk_count e \<or> chunk_count e + n < m"
    have "\<forall>k. chunk_count e < k \<and> k \<le> cc \<longrightarrow>
        ChunkJson m \<noteq> ChunkCsv k \<and> ChunkJson m \<noteq> ChunkJson k"
      using m ncc by auto
    moreover have "\<forall>k. chunk_count e < k \<and> k \<le> cc \<longrightarrow>
        ChunkCsv m \<noteq> ChunkCsv k \<and> ChunkCsv m \<noteq> ChunkJson k"
      using m ncc by auto
    ultimately have "files disk1 (ChunkJson m) = files disk (ChunkJson m)"
      "files disk1 (ChunkCsv m) = files disk (ChunkCsv m)"
      using sp by blast+
    then show "files disk' (ChunkJson m) = files disk (ChunkJson m) \<and>
          files disk' (ChunkCsv m) = files disk (ChunkCsv m)"
      using res f2 by (simp add: save_state_files)
  qed
  show "files disk' ExporterStateFile
          = Some (ExporterDoc (chunk_count e') (total_exported e') (total_uploaded e') [])"
    using res f2 by (simp add: save_state_files)
  show "unwritable disk = {} \<longrightarrow>
          files disk' DedupUsersFile
            = Some (UsersText (write_users (sorted_list_of_fset (seen_users d))))"
    using res sp u2 by (simp add: save_state_forced_users)
qed

lemma export_chunks_writable:
  assumes "0 < chunk_size" and "unwritable disk = {}"
  shows "\<exists>r. export_chunks chunk_size upload force threshold e d disk = Inr r"
proof -
  obtain cc cf fc disk1 where
    l: "export_loop (nat chunk_size) (sorted_list_of_fset (pending_users e)) 0
          (chunk_count e, [], 0, disk) = Inr (cc, cf, fc, disk1)"
    using export_loop_writable [OF assms(2)] by (metis prod_cases4)
  have "unwritable disk1 = {}"
    using export_loop_spec [OF _ l] assms by simp
  then have "\<exists>r. export_finish upload e d (cc, cf, fc, disk1) = Inr r"
    by (rule export_finish_writable)
  with l assms(1) show ?thesis
    by (auto simp: export_chunks_def)
qed

text \<open>
  C4. With a positive chunk size: \<open>export_chunks\<close> returns on a disk that takes every
  write; whenever it returns, the chunk count advances by the number of files created,
  every chunk written holds at most \<open>chunk_size\<close> names, its CSV rows and its JSON list
  are the same list, chunk \<open>j\<close> is the \<open>j\<close>-th slice of the sorted buffer, the chunks
  in order make up a sorted list without repetition, and when the export is forced (or
  the threshold is reached) the number of chunks is the ceiling of buffer size over chunk
  size and the chunks together are the sorted buffer.
\<close>

theorem export_chunks_chunking:
  assumes "0 < chunk_size"
  shows "(unwritable disk = {} \<longrightarrow>
            (\<exists>r. export_chunks chunk_size upload force threshold e d disk = Inr r)) \<and>
         (\<forall>n e' d' disk'.
            export_chunks chunk_size upload force threshold e d disk = Inr (n, e', d', disk') \<longrightarrow>
              chunk_count e' = chunk_count e + n \<and>
              (\<forall>j < n. \<exists>us.
                 json_users disk' (chunk_count e + 1 + j) = Some us \<and>
                 csv_users disk' (chunk_count e + 1 + j) = Some us \<and>
                 length us \<le> nat chunk_size \<and>
                 us = take (nat chunk_size) (drop (j * nat chunk_size)
                        (sorted_list_of_fset (pending_users e)))) \<and>
              sorted (concat (map (\<lambda>j. the (json_users disk' (chunk_count e + 1 + j))) [0..<n])) \<and>
              distinct (concat (map (\<lambda>j. the (json_users disk' (chunk_count e + 1 + j))) [0..<n])) \<and>
              (force \<or> threshold \<le> int (fcard (pending_users e)) \<longrightarrow>
                 int n = \<lceil>real (fcard (pending_users e)) / real_of_int chunk_size\<rceil> \<and>
                 concat (map (\<lambda>j. the (json_users disk' (chunk_count e + 1 + j))) [0..<n])
                   = sorted_list_of_fset (pending_users e)))"
proof (intro conjI allI impI)
  assume "unwritable disk = {}"
  with assms show "\<exists>r. export_chunks chunk_size upload force threshold e d disk = Inr r"
    by (rule export_chunks_writable)
next
  fix n e' d' disk'
  assume r: "export_chunks chunk_size upload force threshold e d disk = Inr (n, e', d', disk')"
  let ?c = "nat chunk_size"
  let ?us = "sorted_list_of_fset (pending_users e)"
  let ?L = "concat (map (\<lambda>j. the (json_users disk' (chunk_count e + 1 + j))) [0..<n])"
  have cpos: "0 < ?c" using assms by simp
  have main: "chunk_count e' = chunk_count e + n \<and>
      (\<forall>j < n. json_users disk' (chunk_count e + 1 + j) = Some (take ?c (drop (j * ?c) ?us)) \<and>
                csv_users disk' (chunk_count e + 1 + j) = Some (take ?c (drop (j * ?c) ?us))) \<and>
      (n = 0 \<or> n = nchunks ?c (fcard (pending_users e))) \<and>
      (force \<or> threshold \<le> int (fcard (pending_users e)) \<longrightarrow>
         n = nchunks ?c (fcard (pending_users e)))"
  proof (cases "(\<not> force \<and> int (fcard (pending_users e)) < threshold) \<or> pending_users e = {||}")
    case True
    with r have "n = 0" "e' = e" by (auto simp: export_chunks_def split: if_splits)
    with True cpos show ?thesis by (auto simp: fcard_fempty)
  next
    case False
    then have go: "force \<or> threshold \<le> int (fcard (pending_users e))"
      and ne: "pending_users e \<noteq> {||}" by auto
    from export_chunks_Inr(1,2,6) [OF assms go ne r] show ?thesis by simp
  qed
  show "chunk_count e' = chunk_count e + n" using main by simp
  have L: "?L = concat (map (\<lambda>j. take ?c (drop (0 + j * ?c) ?us)) [0..<n])"
    using main by (auto intro!: arg_cong [where f = concat])
  have Lsub: "?L = [] \<or> ?L = ?us"
  proof (cases "n = 0")
    case True
    then show ?thesis by simp
  next
    case False
    with main have "n = nchunks ?c (length ?us - 0)"
      by (simp add: sorted_list_of_fset_props)
    with L concat_slices [OF cpos, of 0 ?us] show ?thesis by simp
  qed
  show "sorted ?L"
  proof (rule disjE [OF Lsub])
    assume a: "?L = []"
    show ?thesis unfolding a by simp
  next
    assume a: "?L = ?us"
    show ?thesis unfolding a by (rule sorted_list_of_fset_props)
  qed
  show "distinct ?L"
  proof (rule disjE [OF Lsub])
    assume a: "?L = []"
    show ?thesis unfolding a by simp
  next
    assume a: "?L = ?us"
    show ?thesis unfolding a by (rule sorted_list_of_fset_props)
  qed
  show "int n = \<lceil>real (fcard (pending_users e)) / real_of_int chunk_size\<rceil>"
    if "force \<or> threshold \<le> int (fcard (pending_users e))"
  proof -
    from that main have "n = nchunks ?c (fcard (pending_users e))" by simp
    moreover have "real ?c = real_of_int chunk_size" using assms by simp
    ultimately show ?thesis using nchunks_ceiling [OF cpos, of "fcard (pending_users e)"] by simp
  qed
  show "?L = ?us" if "force \<or> threshold \<le> int (fcard (pending_users e))"
  proof -
    from that main have "n = nchunks ?c (length ?us - 0)"
      by (simp add: sorted_list_of_fset_props)
    with L concat_slices [OF cpos, of 0 ?us] show ?thesis by simp
  qed
  fix j assume "j < n"
  with main show "\<exists>us. json_users disk' (chunk_count e + 1 + j) = Some us \<and>
                 csv_users disk' (chunk_count e + 1 + j) = Some us \<and>
                 length us \<le> nat chunk_size \<and>
                 us = take (nat chunk_size) (drop (j * nat chunk_size)
                        (sorted_list_of_fset (pending_users e)))"
    by simp
qed

lemma fcard_three: "fcard {|''Alice'', ''bob'', ''ALICE''|} = 3"
  by code_simp

theorem export_chunks_chunking_witness:
  "(0::int) < 2 \<and> unwritable fs_empty = {} \<and>
   (\<exists>n e' d' disk'.
      export_chunks 2 (\<lambda>ps. 0) True 5000
        ((exporter_init False)\<lparr>pending_users := {|''Alice'', ''bob'', ''ALICE''|}\<rparr>)
        dedup_init fs_empty = Inr (n, e', d', disk') \<and>
      n = 2 \<and> chunk_count e' = 2 \<and>
      concat (map (\<lambda>j. the (json_users disk' (1 + j))) [0..<n])
        = sorted_list_of_fset {|''Alice'', ''bob'', ''ALICE''|})"
proof -
  let ?e = "(exporter_init False)\<lparr>pending_users := {|''Alice'', ''bob'', ''ALICE''|}\<rparr>"
  have h1: "(0::int) < 2" by simp
  have h2: "unwritable fs_empty = {}" by (simp add: fs_empty_def)
  note th = export_chunks_chunking [OF h1, of fs_empty "\<lambda>ps. 0" True 5000 ?e dedup_init]
  from th h2 obtain r where
    "export_chunks 2 (\<lambda>ps. 0) True 5000 ?e dedup_init fs_empty = Inr r" by blast
  then obtain n e' d' disk' where
    r: "export_chunks 2 (\<lambda>ps. 0) True 5000 ?e dedup_init fs_empty = Inr (n, e', d', disk')"
    by (cases r) auto
  from th r have p: "chunk_count e' = chunk_count ?e + n"
    "int n = \<lceil>real (fcard (pending_users ?e)) / real_of_int 2\<rceil>"
    "concat (map (\<lambda>j. the (json_users disk' (chunk_count ?e + 1 + j))) [0..<n])
       = sorted_list_of_fset (pending_users ?e)"
    by blast+
  have "\<lceil>(3::real) / 2\<rceil> = 2" by (simp add: ceiling_eq_iff)
  with p(2) have n: "n = 2" by (simp add: fcard_three)
  with p(1,3) r h1 h2 show ?thesis
    by (simp add: exporter_init_def)
qed

text \<open>
  C3. Admission is ordered by call. The names \<open>Alice\<close>, \<open>bob\<close>, \<open>ALICE\<close> are admitted
  call after call into an empty store, in each of the six orders, with chunk size 2. The
  casing admitted first is buffered, the other casing is turned away; a later
  \<open>filter_new_users\<close> on \<open>alice\<close> returns the empty set; the forced export writes exactly
  one chunk, which holds exactly two names: the casing accepted first, and \<open>bob\<close>.
\<close>

theorem first_writer_wins:
  "list_all
     (\<lambda>(order, chunk).
        case pipeline_run 2 (\<lambda>ps. 0) False (map (\<lambda>u. AddUsers {|u|}) order)
               (construct False fs_empty) of
          Inl err \<Rightarrow> False
        | Inr (e, d, disk) \<Rightarrow>
            pending_users e = fset_of_list chunk \<and>
            (case filter_new_users {|''alice''|} d disk of
               (new, d1, disk1) \<Rightarrow>
                 new = {||} \<and>
                 (case export_chunks 2 (\<lambda>ps. 0) True 5000 e d1 disk1 of
                    Inl err \<Rightarrow> False
                  | Inr (n, e2, d2, disk2) \<Rightarrow>
                      n = 1 \<and> chunk_count e2 = 1 \<and> length chunk = 2 \<and>
                      json_users disk2 1 = Some chunk \<and>
                      csv_users disk2 1 = Some chunk \<and>
                      json_users disk2 2 = None \<and> csv_users disk2 2 = None)))
     [([''Alice'', ''bob'', ''ALICE''], [''Alice'', ''bob'']),
      ([''Alice'', ''ALICE'', ''bob''], [''Alice'', ''bob'']),
      ([''bob'', ''Alice'', ''ALICE''], [''Alice'', ''bob'']),
      ([''ALICE'', ''bob'', ''Alice''], [''ALICE'', ''bob'']),
      ([''ALICE'', ''Alice'', ''bob''], [''ALICE'', ''bob'']),
      ([''bob'', ''ALICE'', ''Alice''], [''ALICE'', ''bob''])]"
  by code_simp

text \<open>
  C9, evaluated on the code. When the exporter state file cannot be opened for writing,
  \<open>_save_state\<close> raises, and so does the \<open>export_chunks\<close> that calls it; when the
  pipeline state file cannot be opened, \<open>PipelineState.save\<close> raises. The dedup save on a
  disk that takes no write returns with the store and the disk unchanged.
\<close>

theorem unguarded_state_saves_raise:
  "exporter_save_state (exporter_init False)
      (fs_empty\<lparr>unwritable := {ExporterStateFile}\<rparr>) = Inl OSError \<and>
   (case export_chunks 5000 (\<lambda>ps. 0) True 5000
      ((exporter_init False)\<lparr>pending_users := {|''bob''|}\<rparr>) dedup_init
      (fs_empty\<lparr>unwritable := {ExporterStateFile}\<rparr>) of
      Inl err \<Rightarrow> err = OSError | Inr r \<Rightarrow> False) \<and>
   pipeline_save \<lparr>current_batch = [''foo'']\<rparr> dedup_init
      (fs_empty\<lparr>unwritable := {PipelineStateFile}\<rparr>) = Inl OSError \<and>
   save_state True dedup_init (fs_empty\<lparr>unwritable := {DedupSubredditsFile, DedupUsersFile}\<rparr>)
     = (dedup_init, fs_empty\<lparr>unwritable := {DedupSubredditsFile, DedupUsersFile}\<rparr>)"
proof (intro conjI)
  show "exporter_save_state (exporter_init False)
      (fs_empty\<lparr>unwritable := {ExporterStateFile}\<rparr>) = Inl OSError"
    by (simp add: exporter_save_state_def write_file_def)
  show "case export_chunks 5000 (\<lambda>ps. 0) True 5000
      ((exporter_init False)\<lparr>pending_users := {|''bob''|}\<rparr>) dedup_init
      (fs_empty\<lparr>unwritable := {ExporterStateFile}\<rparr>) of
      Inl err \<Rightarrow> err = OSError | Inr r \<Rightarrow> False"
    by code_simp
  show "pipeline_save \<lparr>current_batch = [''foo'']\<rparr> dedup_init
      (fs_empty\<lparr>unwritable := {PipelineStateFile}\<rparr>) = Inl OSError"
    by (simp add: pipeline_save_def write_file_def)
  show "save_state True dedup_init (fs_empty\<lparr>unwritable := {DedupSubredditsFile, DedupUsersFile}\<rparr>)
     = (dedup_init, fs_empty\<lparr>unwritable := {DedupSubredditsFile, DedupUsersFile}\<rparr>)"
    by (simp add: save_state_def save_subreddits_def save_users_def write_file_def)
qed

section \<open>Properties of the Checkpoint Store\<close>

lemma from_dict_to_dict:
  "checkpoint_load (d\<lparr>files := (files d)(CheckpointFile \<mapsto> to_dict s)\<rparr>) = Some s"
  by (simp add: checkpoint_load_def to_dict_def from_dict_def list_of_def)

text \<open>
  C7. When the checkpoint file can be written, \<open>load\<close> after \<open>save s\<close> returns \<open>s\<close>:
  phase, queue, completed keywords, discovered names and subreddits. When no checkpoint
  file exists, \<open>load\<close> returns \<open>None\<close>, and \<open>run\<close> then starts from the default state,
  whose phase is \<open>init\<close>.
\<close>

theorem checkpoint_roundtrip:
  "(CheckpointFile \<notin> unwritable d \<longrightarrow> checkpoint_load (checkpoint_save s d) = Some s) \<and>
   (files d CheckpointFile = None \<longrightarrow>
      checkpoint_load d = None \<and> resume_state d = scraper_state_init \<and>
      current_phase (resume_state d) = ''init'')"
proof (intro conjI impI)
  assume "CheckpointFile \<notin> unwritable d"
  then have "checkpoint_save s d = d\<lparr>files := (files d)(CheckpointFile \<mapsto> to_dict s)\<rparr>"
    by (simp add: checkpoint_save_def write_file_def)
  then show "checkpoint_load (checkpoint_save s d) = Some s"
    by (simp only: from_dict_to_dict)
next
  assume "files d CheckpointFile = None"
  then show "checkpoint_load d = None" "resume_state d = scraper_state_init"
    "current_phase (resume_state d) = ''init''"
    by (simp_all add: resume_state_def checkpoint_load_def scraper_state_init_def)
qed

theorem checkpoint_roundtrip_witness:
  "CheckpointFile \<notin> unwritable fs_empty \<and> files fs_empty CheckpointFile = None \<and>
   checkpoint_load (checkpoint_save
      \<lparr>state_discovered_subreddits = [\<lparr>subreddit_name = ''foo'', subscribers = 10, over18 = True\<rparr>],
       discovered_names = {|''foo'', ''bar''|}, explore_queue = [''foo''],
       completed_keywords = [''nsfw''], current_phase = ''popular''\<rparr> fs_empty)
     = Some \<lparr>state_discovered_subreddits = [\<lparr>subreddit_name = ''foo'', subscribers = 10, over18 = True\<rparr>],
       discovered_names = {|''foo'', ''bar''|}, explore_queue = [''foo''],
       completed_keywords = [''nsfw''], current_phase = ''popular''\<rparr> \<and>
   checkpoint_load fs_empty = None \<and> current_phase (resume_state fs_empty) = ''init''"
proof -
  have h1: "CheckpointFile \<notin> unwritable fs_empty" by (simp add: fs_empty_def)
  have h2: "files fs_empty CheckpointFile = None" by (simp add: fs_empty_def)
  from checkpoint_roundtrip [of fs_empty] h1 h2 show ?thesis by blast
qed

text \<open>
  C10. When the checkpoint file exists but cannot be read or parsed, \<open>load\<close> returns
  \<open>None\<close>, the value it returns for a missing file, and \<open>run\<close> starts from the default
  state at phase \<open>init\<close>.
\<close>

theorem checkpoint_load_corrupt:
  assumes "files d CheckpointFile = Some Corrupt"
  shows "checkpoint_load d = None \<and>
         checkpoint_load d = checkpoint_load (checkpoint_delete d) \<and>
         resume_state d = scraper_state_init \<and>
         current_phase (resume_state d) = ''init''"
  using assms
  by (simp add: checkpoint_load_def checkpoint_delete_def resume_state_def scraper_state_init_def)

theorem checkpoint_load_corrupt_witness:
  "files (fs_empty\<lparr>files := (files fs_empty)(CheckpointFile \<mapsto> Corrupt)\<rparr>) CheckpointFile
     = Some Corrupt \<and>
   checkpoint_load (fs_empty\<lparr>files := (files fs_empty)(CheckpointFile \<mapsto> Corrupt)\<rparr>) = None \<and>
   current_phase (resume_state (fs_empty\<lparr>files := (files fs_empty)(CheckpointFile \<mapsto> Corrupt)\<rparr>))
     = ''init''"
proof -
  have h: "files (fs_empty\<lparr>files := (files fs_empty)(CheckpointFile \<mapsto> Corrupt)\<rparr>) CheckpointFile
     = Some Corrupt" by simp
  from checkpoint_load_corrupt [OF h] h show ?thesis by blast
qed

section \<open>Properties of the orchestrator's phase machine\<close>

lemma save_checkpoint_proj [simp]:
  "current_phase (state (save_checkpoint oc rs)) = current_phase (state rs)"
  "running (save_checkpoint oc rs) = running rs"
  "entered (save_checkpoint oc rs) = entered rs"
  by (simp_all add: save_checkpoint_def Let_def)

lemma work_proj [simp]:
  "current_phase (state (work oc rs)) = current_phase (state rs)"
  "running (work oc rs) = (running rs \<and> \<not> stopped oc)"
  "entered (work oc rs) = entered rs"
  by (simp_all add: work_def)

lemma enter_proj [simp]:
  "current_phase (state (enter p rs)) = p"
  "running (enter p rs) = running rs"
  "entered (enter p rs) = entered rs @ [p]"
  by (simp_all add: enter_def)

lemma keyword_loop_proj [simp]:
  "current_phase (state (keyword_loop env ks rs)) = current_phase (state rs)"
  "entered (keyword_loop env ks rs) = entered rs"
  by (induction env ks rs rule: keyword_loop.induct) (simp_all add: Let_def)









section \<open>Properties of the retry loops\<close>

lemma fetch_with_retry_unfold:
  "max_retries \<le> attempt \<Longrightarrow>
     fetch_with_retry srv cb max_retries attempt rotations = (Inr [], attempt, rotations)"
  "attempt < max_retries \<Longrightarrow> srv attempt = Ok found \<Longrightarrow>
     fetch_with_retry srv cb max_retries attempt rotations = (Inr found, attempt + 1, rotations)"
  "attempt < max_retries \<Longrightarrow> srv attempt = Recoverable \<Longrightarrow>
     fetch_with_retry srv cb max_retries attempt rotations = (Inl OtherError, attempt + 1, rotations)"
  "attempt < max_retries \<Longrightarrow> srv attempt = Permanent \<Longrightarrow>
     fetch_with_retry srv cb max_retries attempt rotations = (Inl OtherError, attempt + 1, rotations)"
  "attempt < max_retries \<Longrightarrow> srv attempt = TooManyRequests \<Longrightarrow>
     \<not> attempt < max_retries - 1 \<Longrightarrow>
     fetch_with_retry srv cb max_retries attempt rotations = (Inr [], attempt + 1, rotations)"
  "attempt < max_retries \<Longrightarrow> srv attempt = TooManyRequests \<Longrightarrow>
     attempt < max_retries - 1 \<Longrightarrow>
     fetch_with_retry srv cb max_retries attempt rotations =
       fetch_with_retry srv cb max_retries (attempt + 1)
         (if cb then rotations + 1 else rotations)"
  by (subst fetch_with_retry.simps, simp)+

lemma fetch_with_retry_bound:
  "attempt < max_retries \<Longrightarrow>
     (case fetch_with_retry srv cb max_retries attempt rotations of
        (res, attempts', rotations') \<Rightarrow>
          attempt < attempts' \<and> attempts' \<le> max_retries \<and>
          rotations' + attempt + 1 \<le> rotations + attempts')"
proof (induction srv cb max_retries attempt rotations rule: fetch_with_retry.induct)
  case (1 srv cb max_retries attempt rotations)
  note lt = "1.prems"
  show ?case
  proof (cases "srv attempt")
    case (Ok found)
    with lt show ?thesis by (simp add: fetch_with_retry_unfold)
  next
    case Recoverable
    with lt show ?thesis by (simp add: fetch_with_retry_unfold)
  next
    case Permanent
    with lt show ?thesis by (simp add: fetch_with_retry_unfold)
  next
    case TooManyRequests
    show ?thesis
    proof (cases "attempt < max_retries - 1")
      case True
      then have lt': "attempt + 1 < max_retries" by simp
      have nle: "\<not> max_retries \<le> attempt" using lt by simp
      from "1.IH" [OF nle TooManyRequests True lt']
      show ?thesis
        unfolding fetch_with_retry_unfold(6) [where srv = srv and attempt = attempt, OF lt TooManyRequests True]
        by (auto split: prod.splits if_splits)
    next
      case False
      from lt show ?thesis
        unfolding fetch_with_retry_unfold(5) [where srv = srv and attempt = attempt, OF lt TooManyRequests False] by simp
    qed
  qed
qed

lemma fetch_with_retry_limited:
  "\<forall>k. srv k = TooManyRequests \<Longrightarrow> attempt < max_retries \<Longrightarrow>
     fetch_with_retry srv True max_retries attempt rotations
       = (Inr [], max_retries, rotations + (max_retries - 1 - attempt))"
proof (induction "max_retries - attempt" arbitrary: attempt rotations rule: less_induct)
  case less
  have t: "srv attempt = TooManyRequests" using less.prems by simp
  show ?case
  proof (cases "attempt < max_retries - 1")
    case True
    then have lt: "attempt + 1 < max_retries" by simp
    then have m: "max_retries - (attempt + 1) < max_retries - attempt" by simp
    from less.hyps [OF m less.prems(1) lt, of "rotations + 1"] True
    show ?thesis
      unfolding fetch_with_retry_unfold(6) [where srv = srv and attempt = attempt, OF less.prems(2) t True] by simp
  next
    case False
    with less.prems have "attempt + 1 = max_retries" by simp
    then show ?thesis
      unfolding fetch_with_retry_unfold(5) [where srv = srv and attempt = attempt, OF less.prems(2) t False] by simp
  qed
qed

lemma scrape_post_loop_unfold:
  "max_retries \<le> retry \<Longrightarrow> scrape_post_loop srv max_retries retry = (None, retry)"
  "retry < max_retries \<Longrightarrow> srv retry = Ok details \<Longrightarrow>
     scrape_post_loop srv max_retries retry = (Some details, retry)"
  "retry < max_retries \<Longrightarrow> srv retry = Permanent \<Longrightarrow>
     scrape_post_loop srv max_retries retry = (None, retry)"
  "retry < max_retries \<Longrightarrow> srv retry = TooManyRequests \<Longrightarrow>
     scrape_post_loop srv max_retries retry = scrape_post_loop srv max_retries (retry + 1)"
  "retry < max_retries \<Longrightarrow> srv retry = Recoverable \<Longrightarrow>
     scrape_post_loop srv max_retries retry = scrape_post_loop srv max_retries (retry + 1)"
  by (subst scrape_post_loop.simps, simp)+

lemma scrape_post_loop_bound:
  "retry \<le> max_retries \<Longrightarrow>
     (case scrape_post_loop srv max_retries retry of (res, retry') \<Rightarrow>
        retry \<le> retry' \<and> retry' \<le> max_retries)"
proof (induction "max_retries - retry" arbitrary: retry rule: less_induct)
  case less
  show ?case
  proof (cases "max_retries \<le> retry")
    case True
    with less.prems show ?thesis by (simp add: scrape_post_loop_unfold)
  next
    case False
    then have lt: "retry < max_retries" and le: "retry + 1 \<le> max_retries"
      and m: "max_retries - (retry + 1) < max_retries - retry" by simp_all
    note ih = less.hyps [OF m le]
    show ?thesis
    proof (cases "srv retry")
      case (Ok details)
      with lt show ?thesis by (simp add: scrape_post_loop_unfold)
    next
      case Permanent
      with lt show ?thesis by (simp add: scrape_post_loop_unfold)
    next
      case TooManyRequests
      from ih show ?thesis
        unfolding scrape_post_loop_unfold(4) [where srv = srv and retry = retry, OF lt TooManyRequests]
        by (auto split: prod.splits)
    next
      case Recoverable
      from ih show ?thesis
        unfolding scrape_post_loop_unfold(5) [where srv = srv and retry = retry, OF lt Recoverable]
        by (auto split: prod.splits)
    qed
  qed
qed

lemma scrape_post_loop_limited:
  "\<forall>k. srv k = TooManyRequests \<Longrightarrow> retry \<le> max_retries \<Longrightarrow>
     scrape_post_loop srv max_retries retry = (None, max_retries)"
proof (induction "max_retries - retry" arbitrary: retry rule: less_induct)
  case less
  show ?case
  proof (cases "max_retries \<le> retry")
    case True
    with less.prems show ?thesis by (simp add: scrape_post_loop_unfold)
  next
    case False
    then have lt: "retry < max_retries" and le: "retry + 1 \<le> max_retries"
      and m: "max_retries - (retry + 1) < max_retries - retry" by simp_all
    have t: "srv retry = TooManyRequests" using less.prems by simp
    from less.hyps [OF m less.prems(1) le] show ?thesis
      unfolding scrape_post_loop_unfold(4) [where srv = srv and retry = retry, OF lt t] .
  qed
qed

lemma handle_cases:
  "handle_rate_limit_or_block oc c = (ok, c') \<Longrightarrow>
     max_restart_attempts c' = max_restart_attempts c \<and>
     (ok \<longrightarrow> restart_count c < max_restart_attempts c \<and>
        (oc = SameIp \<and> restart_count c' = restart_count c + 1 \<or>
         oc = NewIp \<and> restart_count c' = 0))"
  by (cases oc)
     (auto simp: handle_rate_limit_or_block_def restart_for_new_ip_def split: if_splits)

lemma run_with_recovery_returns:
  assumes "\<forall>k. rot k \<noteq> NewIp"
  shows "\<exists>r. run_with_recovery gen rot running_at c k = Some r \<and>
             retries_of r \<le> k + (max_restart_attempts c - restart_count c)"
proof (induction "max_restart_attempts c - restart_count c" arbitrary: c k rule: less_induct)
  case less
  show ?case
  proof (cases "running_at k \<and> gen k = RateLimited \<and> fst (handle_rate_limit_or_block (rot k) c)")
    case False
    then show ?thesis
      by (subst run_with_recovery.simps)
         (auto simp: retries_of_def split: gen_outcome.splits prod.splits)
  next
    case True
    obtain c' where h: "handle_rate_limit_or_block (rot k) c = (True, c')"
      using True by (cases "handle_rate_limit_or_block (rot k) c") auto
    from handle_cases [OF h] assms have
      c': "max_restart_attempts c' = max_restart_attempts c"
        "restart_count c < max_restart_attempts c" "restart_count c' = restart_count c + 1"
      by auto
    then have "max_restart_attempts c' - restart_count c'
        < max_restart_attempts c - restart_count c" by simp
    from less.hyps [OF this, of "k + 1"] obtain r where
      r: "run_with_recovery gen rot running_at c' (k + 1) = Some r"
         "retries_of r \<le> k + 1 + (max_restart_attempts c' - restart_count c')" by blast
    have "run_with_recovery gen rot running_at c k = Some r"
      using True h r(1) by (subst run_with_recovery.simps) simp
    with r(2) c' show ?thesis by auto
  qed
qed

lemma run_with_recovery_same_ip:
  assumes "\<forall>k. gen k = RateLimited" "\<forall>k. rot k = SameIp" "\<forall>k. running_at k"
  shows "restart_count c \<le> max_restart_attempts c \<Longrightarrow>
         run_with_recovery gen rot running_at c k
           = Some (Raised RateLimitOrBlocked (k + (max_restart_attempts c - restart_count c)))"
proof (induction "max_restart_attempts c - restart_count c" arbitrary: c k rule: less_induct)
  case less
  show ?case
  proof (cases "restart_count c < max_restart_attempts c")
    case False
    with less.prems have "handle_rate_limit_or_block (rot k) c = (False, c)"
      by (simp add: handle_rate_limit_or_block_def restart_for_new_ip_def)
    moreover have "restart_count c = max_restart_attempts c"
      using False less.prems by simp
    ultimately show ?thesis
      using assms by (subst run_with_recovery.simps) simp
  next
    case True
    let ?c' = "c\<lparr>restart_count := restart_count c + 1\<rparr>"
    have h: "handle_rate_limit_or_block (rot k) c = (True, ?c')"
      using True assms by (simp add: handle_rate_limit_or_block_def restart_for_new_ip_def)
    have m: "max_restart_attempts ?c' - restart_count ?c'
        < max_restart_attempts c - restart_count c" using True by simp
    have le: "restart_count ?c' \<le> max_restart_attempts ?c'" using True by simp
    have step: "run_with_recovery gen rot running_at c k
        = run_with_recovery gen rot running_at ?c' (k + 1)"
      using h assms by (subst run_with_recovery.simps) simp
    from less.hyps [OF m le, of "k + 1"] True show ?thesis
      unfolding step by simp
  qed
qed

text \<open>
  C6, as stated, fails for \<open>_run_with_recovery\<close>: while every rotation reports a new
  IP, the restart counter is reset each time and the loop retries without end.
\<close>

theorem run_with_recovery_unbounded:
  "run_with_recovery (\<lambda>k. RateLimited) (\<lambda>k. NewIp) (\<lambda>k. True)
     \<lparr>restart_count = 0, max_restart_attempts = 5\<rparr> 0 = None"
proof -
  have never: "gen = (\<lambda>k. RateLimited) \<longrightarrow> rot = (\<lambda>k. NewIp) \<longrightarrow> running_at = (\<lambda>k. True) \<longrightarrow>
      restart_count c < max_restart_attempts c \<longrightarrow> False"
    if "run_with_recovery gen rot running_at c k = Some y" for gen rot running_at c k y
  proof (rule run_with_recovery.raw_induct [OF _ that], goal_cases)
    case (1 rec gen rot running_at c k y)
    show ?case
    proof (intro impI)
      assume g: "gen = (\<lambda>k. RateLimited)" and r: "rot = (\<lambda>k. NewIp)"
        and ra: "running_at = (\<lambda>k. True)" and lt: "restart_count c < max_restart_attempts c"
      have h: "handle_rate_limit_or_block (rot k) c = (True, c\<lparr>restart_count := 0\<rparr>)"
        using r lt by (simp add: handle_rate_limit_or_block_def restart_for_new_ip_def)
      from 1(2) g ra h have "rec gen rot running_at (c\<lparr>restart_count := 0\<rparr>) (k + 1) = Some y"
        by simp
      from 1(1) [OF this] g r ra lt show False by simp
    qed
  qed
  show ?thesis
  proof (cases "run_with_recovery (\<lambda>k. RateLimited) (\<lambda>k. NewIp) (\<lambda>k. True)
     \<lparr>restart_count = 0, max_restart_attempts = 5\<rparr> 0")
    case None
    then show ?thesis .
  next
    case (Some y)
    from never [OF Some] show ?thesis by simp
  qed
qed

text \<open>
  C6, amended. \<open>fetch_with_retry\<close> makes at most \<open>max_retries\<close> attempts and asks for at
  most \<open>max_retries - 1\<close> rotations, and returns the empty list when every attempt is
  rate limited. The loop for one post makes at most \<open>max_retries\<close> rotate-and-retry
  rounds, and gives up on the post when every request is rate limited.
  \<open>_run_with_recovery\<close> returns or raises after at most
  \<open>max_restart_attempts - restart_count\<close> retries when no rotation reports a new IP, and
  raises the rate-limit error after exactly that many when every pass is rate limited
  and every rotation keeps the IP.
\<close>

theorem retry_bounds:
  "(0 < max_retries \<longrightarrow>
      (case fetch_with_retry srv cb max_retries 0 0 of
         (res, attempts, rotations) \<Rightarrow> attempts \<le> max_retries \<and> rotations \<le> max_retries - 1)) \<and>
   ((\<forall>k. srv k = TooManyRequests) \<and> 0 < max_retries \<longrightarrow>
      fetch_with_retry srv True max_retries 0 0 = (Inr [], max_retries, max_retries - 1)) \<and>
   (case scrape_post_loop psrv post_retries 0 of (res, retry) \<Rightarrow> retry \<le> post_retries) \<and>
   ((\<forall>k. psrv k = TooManyRequests) \<longrightarrow>
      scrape_post_loop psrv post_retries 0 = (None, post_retries)) \<and>
   ((\<forall>k. rot k \<noteq> NewIp) \<longrightarrow>
      (\<exists>r. run_with_recovery gen rot running_at c 0 = Some r \<and>
           retries_of r \<le> max_restart_attempts c - restart_count c)) \<and>
   ((\<forall>k. gen k = RateLimited) \<and> (\<forall>k. rot k = SameIp) \<and> (\<forall>k. running_at k) \<and>
    restart_count c \<le> max_restart_attempts c \<longrightarrow>
      run_with_recovery gen rot running_at c 0
        = Some (Raised RateLimitOrBlocked (max_restart_attempts c - restart_count c)))"
proof (intro conjI impI)
  assume "0 < max_retries"
  from fetch_with_retry_bound [OF this, where srv = srv and cb = cb and rotations = 0]
  show "case fetch_with_retry srv cb max_retries 0 0 of
         (res, attempts, rotations) \<Rightarrow> attempts \<le> max_retries \<and> rotations \<le> max_retries - 1"
    by (auto split: prod.splits)
next
  assume "(\<forall>k. srv k = TooManyRequests) \<and> 0 < max_retries"
  then show "fetch_with_retry srv True max_retries 0 0 = (Inr [], max_retries, max_retries - 1)"
    using fetch_with_retry_limited [where srv = srv and attempt = 0
        and max_retries = max_retries and rotations = 0] by simp
next
  from scrape_post_loop_bound [where retry = 0 and max_retries = post_retries and srv = psrv]
  show "case scrape_post_loop psrv post_retries 0 of (res, retry) \<Rightarrow> retry \<le> post_retries"
    by (auto split: prod.splits)
next
  assume "\<forall>k. psrv k = TooManyRequests"
  then show "scrape_post_loop psrv post_retries 0 = (None, post_retries)"
    by (simp add: scrape_post_loop_limited)
next
  assume "\<forall>k. rot k \<noteq> NewIp"
  from run_with_recovery_returns [OF this, where gen = gen and running_at = running_at
      and c = c and k = 0]
  show "\<exists>r. run_with_recovery gen rot running_at c 0 = Some r \<and>
           retries_of r \<le> max_restart_attempts c - restart_count c"
    by simp
next
  assume "(\<forall>k. gen k = RateLimited) \<and> (\<forall>k. rot k = SameIp) \<and> (\<forall>k. running_at k) \<and>
    restart_count c \<le> max_restart_attempts c"
  then show "run_with_recovery gen rot running_at c 0
        = Some (Raised RateLimitOrBlocked (max_restart_attempts c - restart_count c))"
    using run_with_recovery_same_ip [where gen = gen and rot = rot
        and running_at = running_at and c = c and k = 0] by simp
qed

theorem retry_bounds_witness:
  "fetch_with_retry (\<lambda>k. TooManyRequests) True 5 0 0 = (Inr [], 5, 4) \<and>
   scrape_post_loop (\<lambda>k. TooManyRequests :: nat response) 8 0 = (None, 8) \<and>
   run_with_recovery (\<lambda>k. RateLimited) (\<lambda>k. SameIp) (\<lambda>k. True)
     \<lparr>restart_count = 0, max_restart_attempts = 5\<rparr> 0 = Some (Raised RateLimitOrBlocked 5) \<and>
   (\<exists>r. run_with_recovery (\<lambda>k. RateLimited) (\<lambda>k. SameIp) (\<lambda>k. True)
           \<lparr>restart_count = 0, max_restart_attempts = 5\<rparr> 0 = Some r \<and> retries_of r \<le> 5)"
  using retry_bounds [where max_retries = 5 and srv = "\<lambda>k. TooManyRequests" and cb = True
      and psrv = "\<lambda>k. TooManyRequests :: nat response" and post_retries = 8
      and rot = "\<lambda>k. SameIp" and gen = "\<lambda>k. RateLimited" and running_at = "\<lambda>k. True"
      and c = "\<lparr>restart_count = 0, max_restart_attempts = 5\<rparr>"]
  by (simp add: retries_of_def)

section \<open>Properties of a run of the pipeline\<close>

lemma is_space_code:
  "is_space c = ((of_char c :: nat) \<in> {9, 10, 11, 12, 13, 28, 29, 30, 31, 32, 133, 160})"
proof -
  have e: "\<And>x. (c = x) = ((of_char c :: nat) = of_char x)" by simp
  show ?thesis unfolding is_space_def by (simp add: e del: of_char_eq_iff)
qed

lemma lower_char_code:
  "(of_char (lower_char c) :: nat) =
     (if (65 \<le> (of_char c :: nat) \<and> (of_char c :: nat) \<le> 90) \<or>
         (192 \<le> (of_char c :: nat) \<and> (of_char c :: nat) \<le> 222 \<and> (of_char c :: nat) \<noteq> 215)
      then of_char c + 32 else of_char c)"
proof -
  have e: "\<And>x. (c = x) = ((of_char c :: nat) = of_char x)" by simp
  have b: "(of_char c :: nat) < 256" by simp
  show ?thesis
    unfolding lower_char_def less_eq_char_def
    using b by (simp add: e del: of_char_eq_iff)
qed

lemma is_space_lower_char: "is_space (lower_char c) = is_space c"
  unfolding is_space_code lower_char_code by auto

lemma lower_char_eq_iff:
  "(lower_char c = CHR 0x0A) = (c = CHR 0x0A)" "(lower_char c = CHR 0x0D) = (c = CHR 0x0D)"
  "(CHR 0x0A = lower_char c) = (c = CHR 0x0A)" "(CHR 0x0D = lower_char c) = (c = CHR 0x0D)"
proof -
  have "(lower_char c = CHR 0x0A) = ((of_char (lower_char c) :: nat) = of_char (CHR 0x0A))"
    by (simp only: of_char_eq_iff)
  also have "\<dots> = ((of_char c :: nat) = of_char (CHR 0x0A))"
    unfolding lower_char_code by (auto simp del: of_char_eq_iff)
  also have "\<dots> = (c = CHR 0x0A)" by (simp only: of_char_eq_iff)
  finally show lf: "(lower_char c = CHR 0x0A) = (c = CHR 0x0A)" .
  have "(lower_char c = CHR 0x0D) = ((of_char (lower_char c) :: nat) = of_char (CHR 0x0D))"
    by (simp only: of_char_eq_iff)
  also have "\<dots> = ((of_char c :: nat) = of_char (CHR 0x0D))"
    unfolding lower_char_code by (auto simp del: of_char_eq_iff)
  also have "\<dots> = (c = CHR 0x0D)" by (simp only: of_char_eq_iff)
  finally show cr: "(lower_char c = CHR 0x0D) = (c = CHR 0x0D)" .
  from lf show "(CHR 0x0A = lower_char c) = (c = CHR 0x0A)" by (simp only: eq_commute [of "CHR 0x0A"])
  from cr show "(CHR 0x0D = lower_char c) = (c = CHR 0x0D)" by (simp only: eq_commute [of "CHR 0x0D"])
qed

lemma strip_plain: "plain_name u \<Longrightarrow> strip u = u"
proof -
  assume p: "plain_name u"
  then obtain x xs where u: "u = x # xs" by (cases u) (auto simp: plain_name_def)
  with p have "dropWhile is_space u = u" by (simp add: plain_name_def)
  moreover from p have "rev u \<noteq> []" "\<not> is_space (hd (rev u))"
    by (simp_all add: plain_name_def hd_rev)
  then have "dropWhile is_space (rev u) = rev u" by (cases "rev u") auto
  ultimately show ?thesis by (simp add: strip_def)
qed

lemma strip_line: "plain_name u \<Longrightarrow> strip (u @ [CHR 0x0A]) = u"
proof -
  assume p: "plain_name u"
  then obtain x xs where u: "u = x # xs" by (cases u) (auto simp: plain_name_def)
  with p have "dropWhile is_space (u @ [CHR 0x0A]) = u @ [CHR 0x0A]"
    by (simp add: plain_name_def)
  moreover have "is_space (CHR 0x0A)" by (simp add: is_space_def)
  moreover from p have "rev u \<noteq> []" "\<not> is_space (hd (rev u))"
    by (simp_all add: plain_name_def hd_rev)
  then have "dropWhile is_space (rev u) = rev u" by (cases "rev u") auto
  ultimately show ?thesis by (simp add: strip_def)
qed

lemma lower_line_breaks:
  "(CHR 0x0A \<in> set (lower u)) = (CHR 0x0A \<in> set u)"
  "(CHR 0x0D \<in> set (lower u)) = (CHR 0x0D \<in> set u)"
  by (induction u) (auto simp: lower_def lower_char_eq_iff)

lemma plain_lower:
  assumes "plain_name u"
  shows "plain_name (lower u)"
proof -
  from assms have "lower u \<noteq> []" "\<not> is_space (hd (lower u))" "\<not> is_space (last (lower u))"
    by (auto simp: plain_name_def lower_def hd_map last_map is_space_lower_char)
  moreover from assms have "CHR 0x0A \<notin> set (lower u)" "CHR 0x0D \<notin> set (lower u)"
    by (simp_all add: plain_name_def lower_line_breaks)
  ultimately show ?thesis by (simp add: plain_name_def)
qed

lemma universal_newlines_id: "CHR 0x0D \<notin> set s \<Longrightarrow> universal_newlines s = s"
  by (induction s rule: universal_newlines.induct) auto

lemma file_lines_line:
  "CHR 0x0A \<notin> set u \<Longrightarrow>
     file_lines cur (u @ CHR 0x0A # rest) = (cur @ u @ [CHR 0x0A]) # file_lines [] rest"
  by (induction u arbitrary: cur) auto

lemma file_lines_write_users:
  "\<forall>u \<in> set us. CHR 0x0A \<notin> set u \<Longrightarrow>
     file_lines [] (write_users us) = map (\<lambda>user. user @ [CHR 0x0A]) us"
proof (induction us)
  case Nil
  then show ?case by (simp add: write_users_def)
next
  case (Cons u us)
  have "write_users (u # us) = u @ CHR 0x0A # write_users us" by (simp add: write_users_def)
  with Cons file_lines_line [of u "[]" "write_users us"] show ?case by simp
qed

lemma read_write_users:
  assumes "\<forall>u \<in> set us. plain_name u"
  shows "read_users (write_users us) = us"
proof -
  from assms have cr: "CHR 0x0D \<notin> set (write_users us)"
    by (auto simp: write_users_def plain_name_def)
  from assms have lf: "\<forall>u \<in> set us. CHR 0x0A \<notin> set u" by (simp add: plain_name_def)
  have "map strip (map (\<lambda>user. user @ [CHR 0x0A]) us) = us"
    using assms by (induction us) (simp_all add: strip_line)
  moreover from assms have "filter (\<lambda>l. l \<noteq> []) us = us"
    by (auto simp: plain_name_def filter_id_conv)
  ultimately show ?thesis
    by (simp add: read_users_def universal_newlines_id [OF cr] file_lines_write_users [OF lf])
qed

lemma load_state_seen:
  "seen_users (load_state disk) = fset_of_list (users_lines disk)"
  by (simp add: load_state_def users_lines_def Let_def dedup_init_def
        split: option.splits content.splits)

lemma all_chunk_users_cong:
  assumes "\<forall>n. 1 \<le> n \<and> n \<le> k \<longrightarrow> files disk' (ChunkJson n) = files disk (ChunkJson n)"
  shows "all_chunk_users disk' k = all_chunk_users disk k"
proof -
  have "map (\<lambda>n. case json_users disk' n of Some us \<Rightarrow> us | None \<Rightarrow> []) [1..<Suc k]
      = map (\<lambda>n. case json_users disk n of Some us \<Rightarrow> us | None \<Rightarrow> []) [1..<Suc k]"
    using assms by (intro map_cong refl) (auto simp: json_users_def)
  then show ?thesis unfolding all_chunk_users_def by (rule arg_cong [where f = concat])
qed

lemma all_chunk_users_add:
  "all_chunk_users disk (k + n) =
     all_chunk_users disk k @
     concat (map (\<lambda>j. case json_users disk (k + 1 + j) of Some us \<Rightarrow> us | None \<Rightarrow> []) [0..<n])"
proof -
  have "[1..<Suc k + n] = [1..<Suc k] @ [Suc k..<Suc k + n]"
    by (rule upt_add_eq_append) simp
  moreover have "[Suc k..<Suc k + n] = map (\<lambda>j. j + Suc k) [0..<n]"
    by (simp only: map_add_upt add.commute [of "Suc k" n])
  ultimately have "[1..<Suc (k + n)] = [1..<Suc k] @ map (\<lambda>j. j + Suc k) [0..<n]"
    by simp
  then show ?thesis
    unfolding all_chunk_users_def by (simp add: comp_def add.commute)
qed

lemma save_state_users_lines:
  assumes "\<forall>u. u |\<in>| seen_users d \<longrightarrow> plain_name u"
  shows "users_lines (snd (save_state force d disk)) = users_lines disk \<or>
         users_lines (snd (save_state force d disk)) = sorted_list_of_fset (seen_users d)"
proof -
  from assms have "read_users (write_users (sorted_list_of_fset (seen_users d)))
      = sorted_list_of_fset (seen_users d)"
    by (intro read_write_users) (simp add: sorted_list_of_fset.rep_eq)
  then show ?thesis
    by (auto simp: save_state_def save_subreddits_def save_users_def write_file_def
          users_lines_def split: sum.splits prod.splits if_splits)
qed

lemma exporter_load_state_cong:
  "files disk' ExporterStateFile = files disk ExporterStateFile \<Longrightarrow>
     exporter_load_state ssh disk' = exporter_load_state ssh disk"
  by (simp add: exporter_load_state_def)

lemma pipeline_invD:
  assumes "pipeline_inv ssh ci (e, d, disk)"
  shows "unwritable disk = {}"
    and "\<forall>u. u |\<in>| pending_users e \<longrightarrow> lower u |\<in>| seen_users d"
    and "\<forall>u. u |\<in>| seen_users d \<longrightarrow> plain_name u"
    and "\<forall>n. files disk (ChunkJson n) \<noteq> None \<longleftrightarrow> 1 \<le> n \<and> n \<le> chunk_count e"
    and "distinct (all_chunk_users disk (chunk_count e))"
    and "\<forall>u \<in> set (all_chunk_users disk (chunk_count e)).
           lower u |\<in>| seen_users d \<and> u |\<notin>| pending_users e \<and>
           lower u \<in> set (users_lines disk)"
    and "\<forall>l \<in> set (users_lines disk). plain_name l"
    and "chunk_count (exporter_load_state ssh disk) = chunk_count e"
    and "pending_users (exporter_load_state ssh disk) = {||}"
    and "(ci \<longrightarrow>
          distinct (map lower (all_chunk_users disk (chunk_count e))) \<and>
          inj_on lower (fset (pending_users e)) \<and>
          lower ` set (all_chunk_users disk (chunk_count e)) \<inter> lower ` fset (pending_users e) = {})"
proof -
  from assms have c: "unwritable disk = {} \<and>
      (\<forall>u. u |\<in>| pending_users e \<longrightarrow> lower u |\<in>| seen_users d) \<and>
      (\<forall>u. u |\<in>| seen_users d \<longrightarrow> plain_name u) \<and>
      (\<forall>n. files disk (ChunkJson n) \<noteq> None \<longleftrightarrow> 1 \<le> n \<and> n \<le> chunk_count e) \<and>
      distinct (all_chunk_users disk (chunk_count e)) \<and>
      (\<forall>u \<in> set (all_chunk_users disk (chunk_count e)).
         lower u |\<in>| seen_users d \<and> u |\<notin>| pending_users e \<and>
         lower u \<in> set (users_lines disk)) \<and>
      (\<forall>l \<in> set (users_lines disk). plain_name l) \<and>
      chunk_count (exporter_load_state ssh disk) = chunk_count e \<and>
      pending_users (exporter_load_state ssh disk) = {||} \<and>
      (ci \<longrightarrow>
         distinct (map lower (all_chunk_users disk (chunk_count e))) \<and>
         inj_on lower (fset (pending_users e)) \<and>
         lower ` set (all_chunk_users disk (chunk_count e)) \<inter> lower ` fset (pending_users e) = {})"
    unfolding pipeline_inv_def prod.case .
  from c show "unwritable disk = {}" by (elim conjE)
  from c show "\<forall>u. u |\<in>| pending_users e \<longrightarrow> lower u |\<in>| seen_users d" by (elim conjE)
  from c show "\<forall>u. u |\<in>| seen_users d \<longrightarrow> plain_name u" by (elim conjE)
  from c show "\<forall>n. files disk (ChunkJson n) \<noteq> None \<longleftrightarrow> 1 \<le> n \<and> n \<le> chunk_count e"
    by (elim conjE)
  from c show "distinct (all_chunk_users disk (chunk_count e))" by (elim conjE)
  from c show "\<forall>u \<in> set (all_chunk_users disk (chunk_count e)).
           lower u |\<in>| seen_users d \<and> u |\<notin>| pending_users e \<and>
           lower u \<in> set (users_lines disk)" by (elim conjE)
  from c show "\<forall>l \<in> set (users_lines disk). plain_name l" by (elim conjE)
  from c show "chunk_count (exporter_load_state ssh disk) = chunk_count e" by (elim conjE)
  from c show "pending_users (exporter_load_state ssh disk) = {||}" by (elim conjE)
  from c show "(ci \<longrightarrow>
        distinct (map lower (all_chunk_users disk (chunk_count e))) \<and>
        inj_on lower (fset (pending_users e)) \<and>
        lower ` set (all_chunk_users disk (chunk_count e)) \<inter> lower ` fset (pending_users e) = {})"
    by (elim conjE)
qed

text \<open>A step that touches only the dedup files and adds names to the buffer.\<close>

lemma pipeline_inv_dedup_step:
  assumes inv: "pipeline_inv ssh ci (e, d, disk)"
    and seen: "\<forall>u. u |\<in>| seen_users d \<longrightarrow> u |\<in>| seen_users d'"
    and plain: "\<forall>u. u |\<in>| seen_users d' \<longrightarrow> plain_name u"
    and unw: "unwritable disk' = unwritable disk"
    and files: "\<forall>p. p \<noteq> DedupSubredditsFile \<and> p \<noteq> DedupUsersFile \<longrightarrow> files disk' p = files disk p"
    and lines: "users_lines disk' = users_lines disk \<or>
                users_lines disk' = sorted_list_of_fset (seen_users d')"
    and cc: "chunk_count e' = chunk_count e"
    and pend: "\<forall>u. u |\<in>| pending_users e' \<longrightarrow>
                 lower u |\<in>| seen_users d' \<and>
                 (u |\<in>| pending_users e \<or> lower u |\<notin>| seen_users d)"
    and inj: "ci \<longrightarrow> inj_on lower (fset (pending_users e'))"
  shows "pipeline_inv ssh ci (e', d', disk')"
proof -
  have a: "all_chunk_users disk' (chunk_count e) = all_chunk_users disk (chunk_count e)"
    using files by (intro all_chunk_users_cong) simp
  have l: "exporter_load_state ssh disk' = exporter_load_state ssh disk"
    using files by (intro exporter_load_state_cong) simp
  have j: "\<forall>n. files disk' (ChunkJson n) = files disk (ChunkJson n)"
    using files by simp
  have mem: "\<forall>u \<in> set (all_chunk_users disk (chunk_count e)). lower u \<in> set (users_lines disk')"
  proof
    fix u assume u: "u \<in> set (all_chunk_users disk (chunk_count e))"
    with pipeline_invD(6) [OF inv] have "lower u |\<in>| seen_users d" "lower u \<in> set (users_lines disk)"
      by blast+
    with seen lines show "lower u \<in> set (users_lines disk')" by auto
  qed
  have pl: "\<forall>l \<in> set (users_lines disk'). plain_name l"
    using lines pipeline_invD(7) [OF inv] plain by auto
  have np: "\<forall>u \<in> set (all_chunk_users disk (chunk_count e)). u |\<notin>| pending_users e'"
    using pipeline_invD(6) [OF inv] pend by blast
  note i = pipeline_invD [OF inv]
  have dj: "ci \<longrightarrow> lower ` set (all_chunk_users disk (chunk_count e))
                  \<inter> lower ` fset (pending_users e') = {}"
  proof (intro impI)
    assume ci
    with i(10) have o: "lower ` set (all_chunk_users disk (chunk_count e))
                  \<inter> lower ` fset (pending_users e) = {}" by simp
    show "lower ` set (all_chunk_users disk (chunk_count e))
                  \<inter> lower ` fset (pending_users e') = {}"
    proof (rule ccontr)
      assume "lower ` set (all_chunk_users disk (chunk_count e))
                  \<inter> lower ` fset (pending_users e') \<noteq> {}"
      then obtain u v where u: "u \<in> set (all_chunk_users disk (chunk_count e))"
        and v: "v |\<in>| pending_users e'" and uv: "lower u = lower v" by auto
      from i(6) u have su: "lower u |\<in>| seen_users d" by blast
      from pend v have "v |\<in>| pending_users e \<or> lower v |\<notin>| seen_users d" by blast
      then show False
      proof
        assume "v |\<in>| pending_users e"
        with o u uv show False by auto
      next
        assume "lower v |\<notin>| seen_users d"
        with su uv show False by simp
      qed
    qed
  qed
  have "unwritable disk' = {} \<and>
        (\<forall>u. u |\<in>| pending_users e' \<longrightarrow> lower u |\<in>| seen_users d') \<and>
        (\<forall>u. u |\<in>| seen_users d' \<longrightarrow> plain_name u) \<and>
        (\<forall>n. files disk' (ChunkJson n) \<noteq> None \<longleftrightarrow> 1 \<le> n \<and> n \<le> chunk_count e') \<and>
        distinct (all_chunk_users disk' (chunk_count e')) \<and>
        (\<forall>u \<in> set (all_chunk_users disk' (chunk_count e')).
           lower u |\<in>| seen_users d' \<and> u |\<notin>| pending_users e' \<and>
           lower u \<in> set (users_lines disk')) \<and>
        (\<forall>l \<in> set (users_lines disk'). plain_name l) \<and>
        chunk_count (exporter_load_state ssh disk') = chunk_count e' \<and>
        pending_users (exporter_load_state ssh disk') = {||} \<and>
        (ci \<longrightarrow>
           distinct (map lower (all_chunk_users disk' (chunk_count e'))) \<and>
           inj_on lower (fset (pending_users e')) \<and>
           lower ` set (all_chunk_users disk' (chunk_count e')) \<inter> lower ` fset (pending_users e') = {})"
    unfolding cc a l
  proof (intro conjI)
    show "unwritable disk' = {}" using unw i(1) by simp
    show "\<forall>u. u |\<in>| pending_users e' \<longrightarrow> lower u |\<in>| seen_users d'" using pend by blast
    show "\<forall>u. u |\<in>| seen_users d' \<longrightarrow> plain_name u" by (rule plain)
    show "\<forall>n. files disk' (ChunkJson n) \<noteq> None \<longleftrightarrow> 1 \<le> n \<and> n \<le> chunk_count e"
      using i(4) j by simp
    show "distinct (all_chunk_users disk (chunk_count e))" by (rule i(5))
    show "\<forall>u \<in> set (all_chunk_users disk (chunk_count e)).
           lower u |\<in>| seen_users d' \<and> u |\<notin>| pending_users e' \<and>
           lower u \<in> set (users_lines disk')"
      using i(6) seen np mem by blast
    show "\<forall>l \<in> set (users_lines disk'). plain_name l" by (rule pl)
    show "chunk_count (exporter_load_state ssh disk) = chunk_count e" by (rule i(8))
    show "pending_users (exporter_load_state ssh disk) = {||}" by (rule i(9))
    show "ci \<longrightarrow>
       distinct (map lower (all_chunk_users disk (chunk_count e))) \<and>
       inj_on lower (fset (pending_users e')) \<and>
       lower ` set (all_chunk_users disk (chunk_count e)) \<inter> lower ` fset (pending_users e') = {}"
      using i(10) inj dj by blast
  qed
  then show ?thesis unfolding pipeline_inv_def prod.case .
qed

lemma pipeline_inv_add_users:
  assumes inv: "pipeline_inv ssh ci (e, d, disk)"
    and plain: "\<forall>u. u |\<in>| users \<longrightarrow> plain_name u"
    and inj: "ci \<longrightarrow> inj_on lower (fset users)"
    and r: "exporter_add_users users e d disk = (k, e', d', disk')"
  shows "pipeline_inv ssh ci (e', d', disk')"
proof -
  obtain new where f: "filter_new_users users d disk = (new, d', disk')"
    and e': "e' = (if new \<noteq> {||} then e\<lparr>pending_users := pending_users e |\<union>| new\<rparr> else e)"
    using r by (auto simp: exporter_add_users_def split: prod.splits)
  have new: "new = ffilter (\<lambda>u. lower u |\<notin>| seen_users d) users"
    using filter_new_users_result [of users d disk] f by simp
  have seen': "seen_users d' = seen_users d |\<union>| lower |`| users"
    using filter_new_users_seen [of users d disk] f by simp
  have disk': "disk' = disk \<or> disk' = snd (save_state False
      (d\<lparr>seen_users := seen_users d |\<union>| (lower |`| users |-| seen_users d),
          user_ops_since_save := user_ops_since_save d + fcard (lower |`| users |-| seen_users d)\<rparr>)
      disk)"
    using f by (auto simp: filter_new_users_def Let_def split: if_splits)
  have su: "seen_users d |\<union>| (lower |`| users |-| seen_users d) = seen_users d'"
    using seen' by auto
  show ?thesis
  proof (rule pipeline_inv_dedup_step [OF inv])
    show "\<forall>u. u |\<in>| seen_users d \<longrightarrow> u |\<in>| seen_users d'" using seen' by auto
    show "\<forall>u. u |\<in>| seen_users d' \<longrightarrow> plain_name u"
      using seen' pipeline_invD(3) [OF inv] plain by (auto simp: plain_lower)
    show "unwritable disk' = unwritable disk"
      using disk' by (auto simp: save_state_files)
    show "\<forall>p. p \<noteq> DedupSubredditsFile \<and> p \<noteq> DedupUsersFile \<longrightarrow> files disk' p = files disk p"
      using disk' by (auto simp: save_state_files)
    show "users_lines disk' = users_lines disk \<or>
          users_lines disk' = sorted_list_of_fset (seen_users d')"
    proof (rule disjE [OF disk'])
      assume "disk' = disk" then show ?thesis by simp
    next
      assume d: "disk' = snd (save_state False
        (d\<lparr>seen_users := seen_users d |\<union>| (lower |`| users |-| seen_users d),
          user_ops_since_save := user_ops_since_save d + fcard (lower |`| users |-| seen_users d)\<rparr>)
        disk)"
      let ?d = "d\<lparr>seen_users := seen_users d |\<union>| (lower |`| users |-| seen_users d),
          user_ops_since_save := user_ops_since_save d + fcard (lower |`| users |-| seen_users d)\<rparr>"
      have pl: "\<forall>u. u |\<in>| seen_users ?d \<longrightarrow> plain_name u"
        using seen' pipeline_invD(3) [OF inv] plain by (auto simp: plain_lower)
      from save_state_users_lines [OF pl, where force = False and disk = disk]
      show ?thesis unfolding d by (simp add: seen')
    qed
    show "chunk_count e' = chunk_count e" using e' by simp
    show "\<forall>u. u |\<in>| pending_users e' \<longrightarrow>
            lower u |\<in>| seen_users d' \<and> (u |\<in>| pending_users e \<or> lower u |\<notin>| seen_users d)"
      using e' new seen' pipeline_invD(2) [OF inv] by (auto split: if_splits)
    show "ci \<longrightarrow> inj_on lower (fset (pending_users e'))"
    proof
      assume ci
      with pipeline_invD(10) [OF inv] have old: "inj_on lower (fset (pending_users e))" by simp
      from \<open>ci\<close> inj have "inj_on lower (fset users)" by simp
      then have nw: "inj_on lower (fset new)"
        unfolding new by (rule inj_on_subset) auto
      have "lower ` (fset (pending_users e) - fset new) \<inter> lower ` (fset new - fset (pending_users e)) = {}"
        using pipeline_invD(2) [OF inv] new by auto
      with old nw have "inj_on lower (fset (pending_users e) \<union> fset new)"
        by (simp add: inj_on_Un)
      with old e' show "inj_on lower (fset (pending_users e'))"
        by (simp split: if_splits)
    qed
  qed
qed

lemma pipeline_inv_save_dedup:
  assumes inv: "pipeline_inv ssh ci (e, d, disk)"
  shows "pipeline_inv ssh ci (e, fst (save_state force d disk), snd (save_state force d disk))"
proof (rule pipeline_inv_dedup_step [OF inv])
  show "users_lines (snd (save_state force d disk)) = users_lines disk \<or>
        users_lines (snd (save_state force d disk))
          = sorted_list_of_fset (seen_users (fst (save_state force d disk)))"
    using save_state_users_lines [OF pipeline_invD(3) [OF inv], where force = force and disk = disk]
    by (simp add: save_state_sets)
  show "\<forall>u. u |\<in>| pending_users e \<longrightarrow>
          lower u |\<in>| seen_users (fst (save_state force d disk)) \<and>
          (u |\<in>| pending_users e \<or> lower u |\<notin>| seen_users d)"
    using pipeline_invD(2) [OF inv] by (simp add: save_state_sets)
  show "\<forall>u. u |\<in>| seen_users (fst (save_state force d disk)) \<longrightarrow> plain_name u"
    using pipeline_invD(3) [OF inv] by (simp add: save_state_sets)
  show "ci \<longrightarrow> inj_on lower (fset (pending_users e))"
    using pipeline_invD(10) [OF inv] by simp
qed (simp_all add: save_state_sets save_state_files)


lemma pipeline_inv_export:
  assumes inv: "pipeline_inv ssh ci (e, d, disk)" and c: "0 < chunk_size"
  shows "\<exists>n e' d' disk'.
           export_chunks chunk_size upload force threshold e d disk = Inr (n, e', d', disk') \<and>
           pipeline_inv ssh ci (e', d', disk')"
proof -
  note i = pipeline_invD [OF inv]
  from export_chunks_writable [OF c i(1)] obtain n e' d' disk' where
    r: "export_chunks chunk_size upload force threshold e d disk = Inr (n, e', d', disk')"
    by (metis prod_cases4)
  have "pipeline_inv ssh ci (e', d', disk')"
  proof (cases "(\<not> force \<and> int (fcard (pending_users e)) < threshold) \<or> pending_users e = {||}")
    case True
    with r have "e' = e" "d' = d" "disk' = disk"
      by (auto simp: export_chunks_def split: if_splits)
    with inv show ?thesis by simp
  next
    case False
    then have go: "force \<or> threshold \<le> int (fcard (pending_users e))"
      and ne: "pending_users e \<noteq> {||}" by auto
    note x = export_chunks_Inr [OF c go ne r]
    let ?us = "sorted_list_of_fset (pending_users e)"
    let ?c = "nat chunk_size"
    let ?cc = "chunk_count e"
    have cpos: "0 < ?c" using c by simp
    have old: "all_chunk_users disk' ?cc = all_chunk_users disk ?cc"
      using x(7) by (intro all_chunk_users_cong) simp
    have m: "map (\<lambda>j. case json_users disk' (?cc + 1 + j) of Some us \<Rightarrow> us | None \<Rightarrow> []) [0..<n]
        = map (\<lambda>j. take ?c (drop (0 + j * ?c) ?us)) [0..<n]"
      using x(6) by (intro map_cong refl) simp
    have nn: "n = nchunks ?c (length ?us - 0)"
      using x(1) by (simp add: sorted_list_of_fset_props)
    have "concat (map (\<lambda>j. take ?c (drop (0 + j * ?c) ?us)) [0..<n]) = drop 0 ?us"
      unfolding nn by (rule concat_slices [OF cpos])
    then have new:
      "concat (map (\<lambda>j. case json_users disk' (?cc + 1 + j) of Some us \<Rightarrow> us | None \<Rightarrow> []) [0..<n])
        = ?us"
      unfolding m by simp
    have all: "all_chunk_users disk' (chunk_count e') = all_chunk_users disk ?cc @ ?us"
      unfolding x(2) all_chunk_users_add old new ..
    have lines: "users_lines disk' = sorted_list_of_fset (seen_users d)"
    proof -
      from i(3) have "read_users (write_users (sorted_list_of_fset (seen_users d)))
          = sorted_list_of_fset (seen_users d)"
        by (intro read_write_users) (simp add: sorted_list_of_fset.rep_eq)
      with x(9) i(1) show ?thesis by (simp add: users_lines_def)
    qed
    have ld: "exporter_load_state ssh disk'
        = \<lparr>pending_users = {||}, chunk_count = chunk_count e', total_exported = total_exported e',
           total_uploaded = total_uploaded e', ssh_enabled = ssh\<rparr>"
      using x(8) by (simp add: exporter_load_state_def)
    have "unwritable disk' = {} \<and>
        (\<forall>u. u |\<in>| pending_users e' \<longrightarrow> lower u |\<in>| seen_users d') \<and>
        (\<forall>u. u |\<in>| seen_users d' \<longrightarrow> plain_name u) \<and>
        (\<forall>m. files disk' (ChunkJson m) \<noteq> None \<longleftrightarrow> 1 \<le> m \<and> m \<le> chunk_count e') \<and>
        distinct (all_chunk_users disk' (chunk_count e')) \<and>
        (\<forall>u \<in> set (all_chunk_users disk' (chunk_count e')).
           lower u |\<in>| seen_users d' \<and> u |\<notin>| pending_users e' \<and>
           lower u \<in> set (users_lines disk')) \<and>
        (\<forall>l \<in> set (users_lines disk'). plain_name l) \<and>
        chunk_count (exporter_load_state ssh disk') = chunk_count e' \<and>
        pending_users (exporter_load_state ssh disk') = {||} \<and>
        (ci \<longrightarrow>
           distinct (map lower (all_chunk_users disk' (chunk_count e'))) \<and>
           inj_on lower (fset (pending_users e')) \<and>
           lower ` set (all_chunk_users disk' (chunk_count e')) \<inter> lower ` fset (pending_users e') = {})"
    proof (intro conjI)
      show "unwritable disk' = {}" using x(5) i(1) by simp
      show "\<forall>u. u |\<in>| pending_users e' \<longrightarrow> lower u |\<in>| seen_users d'" using x(3) by simp
      show "\<forall>u. u |\<in>| seen_users d' \<longrightarrow> plain_name u" using x(4) i(3) by simp
      show "\<forall>m. files disk' (ChunkJson m) \<noteq> None \<longleftrightarrow> 1 \<le> m \<and> m \<le> chunk_count e'"
      proof
        fix m
        show "files disk' (ChunkJson m) \<noteq> None \<longleftrightarrow> 1 \<le> m \<and> m \<le> chunk_count e'"
        proof (cases "m \<le> ?cc \<or> ?cc + n < m")
          case True
          with x(7) have "files disk' (ChunkJson m) = files disk (ChunkJson m)" by blast
          with i(4) True x(2) show ?thesis by auto
        next
          case False
          then have "m - ?cc - 1 < n" "m = ?cc + 1 + (m - ?cc - 1)" by linarith+
          with x(6) have "json_users disk' m \<noteq> None" by (metis option.distinct(1))
          then have "files disk' (ChunkJson m) \<noteq> None"
            by (auto simp: json_users_def split: option.splits)
          with False x(2) show ?thesis by simp
        qed
      qed
      show "distinct (all_chunk_users disk' (chunk_count e'))"
        unfolding all using i(5) i(6) by (auto simp: sorted_list_of_fset_props)
      show "\<forall>u \<in> set (all_chunk_users disk' (chunk_count e')).
           lower u |\<in>| seen_users d' \<and> u |\<notin>| pending_users e' \<and>
           lower u \<in> set (users_lines disk')"
        unfolding all lines x(3) x(4) using i(2) i(6) by auto
      show "\<forall>l \<in> set (users_lines disk'). plain_name l"
        unfolding lines using i(3) by simp
      show "chunk_count (exporter_load_state ssh disk') = chunk_count e'" by (simp add: ld)
      show "pending_users (exporter_load_state ssh disk') = {||}" by (simp add: ld)
      show "(ci \<longrightarrow>
             distinct (map lower (all_chunk_users disk' (chunk_count e'))) \<and>
             inj_on lower (fset (pending_users e')) \<and>
             lower ` set (all_chunk_users disk' (chunk_count e')) \<inter> lower ` fset (pending_users e') = {})"
      proof
        assume ci
        with i(10) have o: "distinct (map lower (all_chunk_users disk ?cc))"
            "inj_on lower (fset (pending_users e))"
            "lower ` set (all_chunk_users disk ?cc) \<inter> lower ` fset (pending_users e) = {}"
          by simp_all
        from o(2) have "distinct (map lower ?us)"
          by (simp add: distinct_map sorted_list_of_fset.rep_eq)
        with o(1) o(3) have "distinct (map lower (all_chunk_users disk ?cc @ ?us))"
          by (simp add: sorted_list_of_fset.rep_eq)
        then show "distinct (map lower (all_chunk_users disk' (chunk_count e'))) \<and>
            inj_on lower (fset (pending_users e')) \<and>
            lower ` set (all_chunk_users disk' (chunk_count e')) \<inter> lower ` fset (pending_users e') = {}"
          unfolding all x(3) by simp
      qed
    qed
    then show ?thesis unfolding pipeline_inv_def prod.case .
  qed
  with r show ?thesis by blast
qed

lemma pipeline_inv_restart:
  assumes inv: "pipeline_inv ssh ci (e, d, disk)"
  shows "pipeline_inv ssh ci (construct ssh disk)"
proof -
  note i = pipeline_invD [OF inv]
  have seen: "seen_users (load_state disk) = fset_of_list (users_lines disk)"
    by (rule load_state_seen)
  have "unwritable disk = {} \<and>
      (\<forall>u. u |\<in>| pending_users (exporter_load_state ssh disk) \<longrightarrow>
           lower u |\<in>| seen_users (load_state disk)) \<and>
      (\<forall>u. u |\<in>| seen_users (load_state disk) \<longrightarrow> plain_name u) \<and>
      (\<forall>n. files disk (ChunkJson n) \<noteq> None \<longleftrightarrow>
           1 \<le> n \<and> n \<le> chunk_count (exporter_load_state ssh disk)) \<and>
      distinct (all_chunk_users disk (chunk_count (exporter_load_state ssh disk))) \<and>
      (\<forall>u \<in> set (all_chunk_users disk (chunk_count (exporter_load_state ssh disk))).
         lower u |\<in>| seen_users (load_state disk) \<and>
         u |\<notin>| pending_users (exporter_load_state ssh disk) \<and>
         lower u \<in> set (users_lines disk)) \<and>
      (\<forall>l \<in> set (users_lines disk). plain_name l) \<and>
      chunk_count (exporter_load_state ssh disk) = chunk_count (exporter_load_state ssh disk) \<and>
      pending_users (exporter_load_state ssh disk) = {||} \<and>
      (ci \<longrightarrow>
         distinct (map lower (all_chunk_users disk (chunk_count (exporter_load_state ssh disk)))) \<and>
         inj_on lower (fset (pending_users (exporter_load_state ssh disk))) \<and>
         lower ` set (all_chunk_users disk (chunk_count (exporter_load_state ssh disk)))
           \<inter> lower ` fset (pending_users (exporter_load_state ssh disk)) = {})"
    unfolding i(8) i(9) seen
    using i(1) i(4) i(5) i(6) i(7) i(10) by (auto simp: fset_of_list_elem)
  then show ?thesis unfolding construct_def pipeline_inv_def prod.case .
qed

lemma pipeline_inv_init: "pipeline_inv ssh ci (construct ssh fs_empty)"
  by (simp add: pipeline_inv_def construct_def fs_empty_def exporter_load_state_def
        exporter_init_def load_state_def dedup_init_def all_chunk_users_def users_lines_def)

lemma pipeline_run_inv:
  assumes c: "0 < chunk_size"
  shows "pipeline_inv ssh ci w \<Longrightarrow>
         \<forall>ev \<in> set evs. \<forall>u. u |\<in>| event_users ev \<longrightarrow> plain_name u \<Longrightarrow>
         ci \<longrightarrow> (\<forall>ev \<in> set evs. inj_on lower (fset (event_users ev))) \<Longrightarrow>
         \<exists>w'. pipeline_run chunk_size upload ssh evs w = Inr w' \<and> pipeline_inv ssh ci w'"
proof (induction evs arbitrary: w)
  case Nil
  then show ?case by simp
next
  case (Cons ev evs)
  obtain e d disk where w: "w = (e, d, disk)" by (cases w) auto
  have "\<exists>w1. pipeline_step chunk_size upload ssh ev w = Inr w1 \<and> pipeline_inv ssh ci w1"
  proof (cases ev)
    case (AddUsers users)
    with Cons.prems(2) have p: "\<forall>u. u |\<in>| users \<longrightarrow> plain_name u" by simp
    from AddUsers Cons.prems(3) have j: "ci \<longrightarrow> inj_on lower (fset users)" by simp
    obtain k e' d' disk' where r: "exporter_add_users users e d disk = (k, e', d', disk')"
      by (metis prod_cases4)
    from pipeline_inv_add_users [OF Cons.prems(1) [unfolded w] p j r] r AddUsers w
    show ?thesis by (simp add: pipeline_step_def)
  next
    case (ExportChunks force threshold)
    from pipeline_inv_export [OF Cons.prems(1) [unfolded w] c, of upload force threshold]
    obtain n e' d' disk' where
      "export_chunks chunk_size upload force threshold e d disk = Inr (n, e', d', disk')"
      "pipeline_inv ssh ci (e', d', disk')" by blast
    with ExportChunks w show ?thesis by (simp add: pipeline_step_def)
  next
    case (SaveDedup force)
    from pipeline_inv_save_dedup [OF Cons.prems(1) [unfolded w], of force] SaveDedup w
    show ?thesis by (simp add: pipeline_step_def split: prod.splits)
  next
    case Restart
    from pipeline_inv_restart [OF Cons.prems(1) [unfolded w]] Restart w
    show ?thesis by (simp add: pipeline_step_def)
  qed
  then obtain w1 where s: "pipeline_step chunk_size upload ssh ev w = Inr w1"
    and i1: "pipeline_inv ssh ci w1" by blast
  from Cons.IH [OF i1] Cons.prems(2) Cons.prems(3) s show ?case by simp
qed

text \<open>
  Why a name must hold no line break: the users file gives the name \<open>a\nb\<close> back as
  the two names \<open>a\<close> and \<open>b\<close>, so after a restart it is admitted and exported again.
\<close>

lemma line_break_name_exported_twice:
  "(case pipeline_run 5000 (\<lambda>ps. 0) False
         [AddUsers {|[CHR ''a'', CHR 0x0A, CHR ''b'']|}, ExportChunks True 5000, Restart,
          AddUsers {|[CHR ''a'', CHR 0x0A, CHR ''b'']|}, ExportChunks True 5000]
         (construct False fs_empty) of
      Inl err \<Rightarrow> False
    | Inr (e, d, disk) \<Rightarrow>
        all_chunk_users disk (chunk_count e)
          = [[CHR ''a'', CHR 0x0A, CHR ''b''], [CHR ''a'', CHR 0x0A, CHR ''b'']] \<and>
        seen_users (load_state disk) = {|''a'', ''b''|})"
  by code_simp

text \<open>
  C1, as stated, fails on a run with one admission and one export: the chunk holds the
  names in their original casing while the seen set holds them lower-cased, so the chunk
  names are not members of the seen set; and both casings of one identity are exported.
\<close>

theorem chunk_names_not_in_seen_users:
  "(case pipeline_run 5000 (\<lambda>ps. 0) False
         [AddUsers {|''Alice'', ''ALICE''|}, ExportChunks True 5000]
         (construct False fs_empty) of
      Inl err \<Rightarrow> False
    | Inr (e, d, disk) \<Rightarrow>
        all_chunk_users disk (chunk_count e) = [''ALICE'', ''Alice''] \<and>
        seen_users d = {|''alice''|} \<and>
        \<not> set (all_chunk_users disk (chunk_count e)) \<subseteq> fset (seen_users d) \<and>
        \<not> distinct (map lower (all_chunk_users disk (chunk_count e))))"
  by code_simp

text \<open>
  C1, amended. Take any run from an empty output directory: admissions, exports, dedup
  saves and restarts between two calls (which reload the persisted dedup and exporter
  state) in any order, with a positive chunk size, names that are not empty and have no
  surrounding white space and no line break, and no failing disk write. The run
  completes; the chunk files on disk are those numbered 1 to the chunk count; their
  identity lists together hold no string twice; when no single admission call carries
  two casings of one name, they hold no identity twice either, compared without regard
  to case; and the lower-cased form of every exported name is in \<open>seen_users\<close>.
\<close>

theorem pipeline_run_no_duplicate_export:
  assumes "0 < chunk_size"
    and "\<forall>ev \<in> set evs. \<forall>u. u |\<in>| event_users ev \<longrightarrow> plain_name u"
  shows "\<exists>e d disk.
           pipeline_run chunk_size upload ssh evs (construct ssh fs_empty) = Inr (e, d, disk) \<and>
           (\<forall>n. files disk (ChunkJson n) \<noteq> None \<longleftrightarrow> 1 \<le> n \<and> n \<le> chunk_count e) \<and>
           distinct (all_chunk_users disk (chunk_count e)) \<and>
           ((\<forall>ev \<in> set evs. inj_on lower (fset (event_users ev))) \<longrightarrow>
              distinct (map lower (all_chunk_users disk (chunk_count e)))) \<and>
           lower ` set (all_chunk_users disk (chunk_count e)) \<subseteq> fset (seen_users d)"
proof -
  define ci where "ci = (\<forall>ev \<in> set evs. inj_on lower (fset (event_users ev)))"
  have j: "ci \<longrightarrow> (\<forall>ev \<in> set evs. inj_on lower (fset (event_users ev)))"
    by (simp add: ci_def)
  from pipeline_run_inv [OF assms(1) pipeline_inv_init assms(2) j] obtain w' where
    r: "pipeline_run chunk_size upload ssh evs (construct ssh fs_empty) = Inr w'"
    and i: "pipeline_inv ssh ci w'" by blast
  obtain e d disk where w: "w' = (e, d, disk)" by (cases w') auto
  note p = pipeline_invD [OF i [unfolded w]]
  from p(6) have "lower ` set (all_chunk_users disk (chunk_count e)) \<subseteq> fset (seen_users d)"
    by auto
  moreover from p(10) have "(\<forall>ev \<in> set evs. inj_on lower (fset (event_users ev))) \<longrightarrow>
      distinct (map lower (all_chunk_users disk (chunk_count e)))"
    by (simp add: ci_def)
  ultimately show ?thesis using r w p(4) p(5) by blast
qed

theorem pipeline_run_no_duplicate_export_witness:
  "(0::int) < 2 \<and> plain_name ''Alice'' \<and> plain_name ''bob'' \<and> plain_name ''alice'' \<and>
   plain_name ''carol'' \<and>
   inj_on lower (fset {|''Alice'', ''bob''|}) \<and> inj_on lower (fset {|''alice'', ''carol''|}) \<and>
   (\<exists>e d disk.
      pipeline_run 2 (\<lambda>ps. 0) False
        [AddUsers {|''Alice'', ''bob''|}, ExportChunks True 5000, Restart,
         AddUsers {|''alice'', ''carol''|}, ExportChunks True 5000]
        (construct False fs_empty) = Inr (e, d, disk) \<and>
      distinct (all_chunk_users disk (chunk_count e)) \<and>
      distinct (map lower (all_chunk_users disk (chunk_count e))) \<and>
      lower ` set (all_chunk_users disk (chunk_count e)) \<subseteq> fset (seen_users d))"
proof -
  let ?evs = "[AddUsers {|''Alice'', ''bob''|}, ExportChunks True 5000, Restart,
         AddUsers {|''alice'', ''carol''|}, ExportChunks True 5000]"
  have h1: "(0::int) < 2" by simp
  have n: "plain_name ''Alice''" "plain_name ''bob''" "plain_name ''alice''" "plain_name ''carol''"
    by (simp_all add: plain_name_def is_space_def)
  then have h2: "\<forall>ev \<in> set ?evs. \<forall>u. u |\<in>| event_users ev \<longrightarrow> plain_name u"
    by simp
  have l: "lower ''Alice'' = ''alice''" "lower ''bob'' = ''bob''" "lower ''alice'' = ''alice''"
    "lower ''carol'' = ''carol''" by code_simp+
  have k: "inj_on lower (fset {|''Alice'', ''bob''|})" "inj_on lower (fset {|''alice'', ''carol''|})"
    by (simp_all add: l)
  then have h3: "\<forall>ev \<in> set ?evs. inj_on lower (fset (event_users ev))"
    by simp
  from pipeline_run_no_duplicate_export [OF h1 h2, of "\<lambda>ps. 0" False] h1 n k h3
  show ?thesis by blast
qed

end
